theory Spec2Isabelle
  imports Main "HOL-Library.Word"
begin

unbundle bit_operations_syntax

section \<open>The resource table\<close>

text \<open>
  The table of \<^verbatim>\<open>ResourceTable.h\<close> as \<^verbatim>\<open>Obfuscator.cpp\<close> walks it: packages, types,
  entries and per-configuration values. A value is held through a pointer; the type
  variable \<open>'a\<close> is the address of the pointed-to \<^verbatim>\<open>FileReference\<close> object, whose
  \<^verbatim>\<open>path\<close> field lives in a store \<open>'a \<Rightarrow> string\<close> that the path pass reads and writes.
  \<open>'t\<close> is \<^verbatim>\<open>ResourceNamedType\<close>, which this file only copies and compares.
  Fields that \<^verbatim>\<open>Obfuscator.cpp\<close> never reads (configuration, visibility, allow_new,
  staged_id, the string pool's bookkeeping) are left out.
\<close>

datatype 'a Value = FileReference (ref: 'a) | OtherValue

datatype 'a ResourceConfigValue = ResourceConfigValue (value': "'a Value")

datatype OverlayableItem = OverlayableItem (comment: string)

datatype 'a ResourceEntry = ResourceEntry
  (name: string)
  (id': "32 word option")
  (overlayable_item: "OverlayableItem option")
  (values': "'a ResourceConfigValue list")

datatype ('a, 't) ResourceTableType = ResourceTableType
  (named_type: 't)
  (entries: "'a ResourceEntry list")

datatype ('a, 't) ResourceTablePackage = ResourceTablePackage
  (types: "('a, 't) ResourceTableType list")

datatype ('a, 't) ResourceTable = ResourceTable
  (packages: "('a, 't) ResourceTablePackage list")

datatype 't ResourceName = ResourceName (package: string) (type': 't) (entry: string)

record ResourceTableEntryView =
  view_name :: string
  view_id :: "16 word option"
  view_overlayable_item :: "OverlayableItem option"

datatype Result = Obfuscated | Keep_ExemptionList | Keep_Overlayable

text \<open>
  \<^verbatim>\<open>insert\<close> of \<^verbatim>\<open>std::map\<close> and \<^verbatim>\<open>std::unordered_map\<close>: a key that is already bound keeps
  its value.
\<close>

definition map_insert :: "'k \<Rightarrow> 'v \<Rightarrow> ('k \<rightharpoonup> 'v) \<Rightarrow> ('k \<rightharpoonup> 'v)" where
  "map_insert k v m = (case m k of None \<Rightarrow> m(k \<mapsto> v) | Some _ \<Rightarrow> m)"

section \<open>Collapsing resource names\<close>

text \<open>
  \<^verbatim>\<open>Obfuscator::ObfuscateResourceName\<close>. The observer \<^verbatim>\<open>onObfuscate\<close> is a parameter; what
  the C++ observer does to the state it captured is the value it returns here.
\<close>

definition ObfuscateResourceName ::
  "bool \<Rightarrow> 't ResourceName set \<Rightarrow> 't \<Rightarrow> ResourceTableEntryView \<Rightarrow>
   (Result \<Rightarrow> 't ResourceName \<Rightarrow> 'r) \<Rightarrow> 'r" where
  "ObfuscateResourceName collapse_key_stringpool name_collapse_exemptions type_name entry_view
      onObfuscate =
     (let resource_name = ResourceName [] type_name (view_name entry_view) in
      if \<not> collapse_key_stringpool \<or> resource_name \<in> name_collapse_exemptions
      then onObfuscate Keep_ExemptionList resource_name
      else if view_overlayable_item entry_view \<noteq> None
      then onObfuscate Keep_Overlayable resource_name
      else onObfuscate Obfuscated resource_name)"

text \<open>The outcome alone: the observer that returns the \<^verbatim>\<open>Result\<close> it is given.\<close>

definition outcome :: "Result \<Rightarrow> 't ResourceName \<Rightarrow> Result" where
  "outcome obfuscatedResult resource_name = obfuscatedResult"

text \<open>
  The lambda \<^verbatim>\<open>onObfuscate\<close> of \<^verbatim>\<open>HandleCollapseKeyStringPool\<close>. It captures \<^verbatim>\<open>entryResId\<close>,
  an \<^verbatim>\<open>int\<close> that holds the bits of the entry's \<^verbatim>\<open>uint32_t\<close> id, and the map; the key
  inserted is that \<^verbatim>\<open>int\<close> converted back to \<^verbatim>\<open>uint32_t\<close>, the same 32 bits.
\<close>

definition onObfuscate ::
  "32 word \<Rightarrow> Result \<Rightarrow> 't ResourceName \<Rightarrow> (32 word \<rightharpoonup> string) \<Rightarrow> (32 word \<rightharpoonup> string)" where
  "onObfuscate entryResId obfuscatedResult resource_name id_resource_map =
     (if obfuscatedResult = Obfuscated
      then map_insert entryResId (entry resource_name) id_resource_map
      else id_resource_map)"

text \<open>\<^verbatim>\<open>ResourceId::entry_id()\<close>: the low 16 bits of the id.\<close>

definition entry_id :: "32 word \<Rightarrow> 16 word" where
  "entry_id i = ucast i"

text \<open>The body of the innermost loop of \<^verbatim>\<open>HandleCollapseKeyStringPool\<close>, for one entry.\<close>

definition collapse_entry ::
  "bool \<Rightarrow> 't ResourceName set \<Rightarrow> 't \<Rightarrow> 'a ResourceEntry \<Rightarrow>
   (32 word \<rightharpoonup> string) \<Rightarrow> (32 word \<rightharpoonup> string)" where
  "collapse_entry collapse_key_string_pool name_collapse_exemptions ty e id_resource_map =
     (case id' e of
        None \<Rightarrow> id_resource_map
      | Some i \<Rightarrow>
          if name e = [] then id_resource_map
          else
            let entryResId = i;
                entry_view = \<lparr> view_name = name e,
                               view_id = Some (entry_id i),
                               view_overlayable_item = overlayable_item e \<rparr>
            in ObfuscateResourceName collapse_key_string_pool name_collapse_exemptions
                 ty entry_view (onObfuscate entryResId) id_resource_map)"

definition HandleCollapseKeyStringPool ::
  "('a, 't) ResourceTable \<Rightarrow> bool \<Rightarrow> 't ResourceName set \<Rightarrow> (32 word \<rightharpoonup> string) \<Rightarrow>
   bool \<times> (32 word \<rightharpoonup> string)" where
  "HandleCollapseKeyStringPool table collapse_key_string_pool name_collapse_exemptions
      id_resource_map =
     (if \<not> collapse_key_string_pool then (True, id_resource_map)
      else (True,
        foldl (\<lambda>m pkg.
          foldl (\<lambda>m ty.
            foldl (\<lambda>m e.
              collapse_entry collapse_key_string_pool name_collapse_exemptions
                (named_type ty) e m)
            m (entries ty))
          m (types pkg))
        id_resource_map (packages table)))"

text \<open>
  For stating properties: every entry of the table with the type that owns it, in the
  order the loops visit them, and the view the driver builds of an entry.
\<close>

definition table_entries :: "('a, 't) ResourceTable \<Rightarrow> ('t \<times> 'a ResourceEntry) list" where
  "table_entries table =
     concat (map (\<lambda>pkg. concat (map (\<lambda>ty. map (Pair (named_type ty)) (entries ty)) (types pkg)))
       (packages table))"

definition view_of :: "'a ResourceEntry \<Rightarrow> ResourceTableEntryView" where
  "view_of e = \<lparr> view_name = name e,
                 view_id = map_option entry_id (id' e),
                 view_overlayable_item = overlayable_item e \<rparr>"

section \<open>Shortening file paths\<close>

subsection \<open>The alias of a path\<close>

definition base64_chars :: string where
  "base64_chars =
     ''ABCDEFGHIJKLMNOPQRSTUVWXYZ'' @
     ''abcdefghijklmnopqrstuvwxyz'' @
     ''0123456789-_''"

text \<open>
  The loop of \<^verbatim>\<open>ShortenFileName\<close> with the number of iterations still to run:
  \<^verbatim>\<open>hash_num\<close> is a \<^verbatim>\<open>std::size_t\<close>, 64 bits on the hosts the tool is built for.
\<close>

fun ShortenFileName_loop :: "nat \<Rightarrow> 64 word \<Rightarrow> string \<Rightarrow> string" where
  "ShortenFileName_loop 0 hash_num result = result"
| "ShortenFileName_loop (Suc n) hash_num result =
     (let sextet = hash_num AND 0x3f;
          hash_num = drop_bit 6 hash_num
      in ShortenFileName_loop n hash_num (result @ [base64_chars ! unat sextet]))"

text \<open>
  \<^verbatim>\<open>ShortenFileName\<close>. The hash is \<^verbatim>\<open>std::hash<android::StringPiece>\<close>, which the C++
  library supplies: it is the parameter \<open>hash\<close>. With \<^verbatim>\<open>output_length\<close> not positive the
  loop does not run.
\<close>

definition ShortenFileName :: "(string \<Rightarrow> 64 word) \<Rightarrow> string \<Rightarrow> int \<Rightarrow> string" where
  "ShortenFileName hash file_path output_length =
     ShortenFileName_loop (nat output_length) (hash file_path) []"

definition OptimalShortenedLength :: "int \<Rightarrow> int" where
  "OptimalShortenedLength num_resources = (if num_resources > 4000 then 3 else 2)"

subsection \<open>The shortened path\<close>

text \<open>\<^verbatim>\<open>std::to_string\<close> on an \<^verbatim>\<open>int\<close>: decimal digits, a minus sign before a negative value.\<close>

definition digit_chars :: string where
  "digit_chars = ''0123456789''"

fun to_string_nat :: "nat \<Rightarrow> string" where
  "to_string_nat n =
     (if n < 10 then [digit_chars ! n]
      else to_string_nat (n div 10) @ [digit_chars ! (n mod 10)])"

declare to_string_nat.simps [simp del]

definition to_string :: "int \<Rightarrow> string" where
  "to_string i =
     (if i < 0 then CHR ''-'' # to_string_nat (nat (- i)) else to_string_nat (nat i))"

definition GetShortenedPath :: "string \<Rightarrow> string \<Rightarrow> int \<Rightarrow> string" where
  "GetShortenedPath shortened_filename extension collision_count =
     (let shortened_path = ''res/'' @ shortened_filename;
          shortened_path =
            (if collision_count > 0 then shortened_path @ to_string collision_count
             else shortened_path)
      in shortened_path @ extension)"

text \<open>\<^verbatim>\<open>util::StartsWith\<close>.\<close>

definition StartsWith :: "string \<Rightarrow> string \<Rightarrow> bool" where
  "StartsWith str prefix = (take (length prefix) str = prefix)"

subsection \<open>The set of file references\<close>

text \<open>
  \<^verbatim>\<open>std::string::compare\<close>: negative, zero or positive as the first string is before,
  equal to or after the second, bytes compared as unsigned. Only the sign is specified.
\<close>

fun compare :: "string \<Rightarrow> string \<Rightarrow> int" where
  "compare [] [] = 0"
| "compare [] (y # ys) = - 1"
| "compare (x # xs) [] = 1"
| "compare (x # xs) (y # ys) =
     (if (of_char x :: nat) < of_char y then - 1
      else if (of_char y :: nat) < of_char x then 1
      else compare xs ys)"

text \<open>
  \<^verbatim>\<open>PathComparator::operator()\<close>. The \<^verbatim>\<open>int\<close> that \<^verbatim>\<open>compare\<close> returns is returned as
  \<^verbatim>\<open>bool\<close>: true for every value other than zero. \<open>heap\<close> gives the path of the
  \<^verbatim>\<open>FileReference\<close> at an address.
\<close>

definition PathComparator :: "('a \<Rightarrow> string) \<Rightarrow> 'a \<Rightarrow> 'a \<Rightarrow> bool" where
  "PathComparator heap lhs rhs = (compare (heap lhs) (heap rhs) \<noteq> 0)"

text \<open>
  \<^verbatim>\<open>std::set<FileReference*, PathComparator>\<close> is the C++ library's red-black tree, here
  with the comparator as a parameter. An insertion walks down from the root: left where
  the comparator puts the new key before the node's, right where it puts the node's key
  before the new one, and where it does neither the key counts as present and the tree
  stays as it is. A new node is red, linked at the leaf the walk reached, and the tree is
  rebalanced on the way back to the root: under a red parent with a red uncle the parent
  and the uncle turn black and the grandparent red; with a black uncle the grandparent is
  rotated (after rotating the parent when the node is an inner child), the new subtree
  root black and the grandparent red. The root is painted black at the end. Iteration is
  the in-order walk. The library climbs from the new node through parent pointers; here
  every level does its round as the recursion returns, which is the same on the trees
  that insertions build from the empty one, where no red node has a red child.
\<close>

datatype color = Red | Black

datatype 'a rb_tree = Leaf | Node color "'a rb_tree" 'a "'a rb_tree"

fun is_red :: "'a rb_tree \<Rightarrow> bool" where
  "is_red (Node Red l k r) = True"
| "is_red t = False"

fun paint :: "color \<Rightarrow> 'a rb_tree \<Rightarrow> 'a rb_tree" where
  "paint c Leaf = Leaf"
| "paint c (Node c' l k r) = Node c l k r"

fun left_child :: "'a rb_tree \<Rightarrow> 'a rb_tree" where
  "left_child Leaf = Leaf"
| "left_child (Node c l k r) = l"

fun right_child :: "'a rb_tree \<Rightarrow> 'a rb_tree" where
  "right_child Leaf = Leaf"
| "right_child (Node c l k r) = r"

fun tree_left_rotate :: "'a rb_tree \<Rightarrow> 'a rb_tree" where
  "tree_left_rotate (Node c a x (Node d b y e)) = Node d (Node c a x b) y e"
| "tree_left_rotate t = t"

fun tree_right_rotate :: "'a rb_tree \<Rightarrow> 'a rb_tree" where
  "tree_right_rotate (Node c (Node d a x b) y e) = Node d a x (Node c b y e)"
| "tree_right_rotate t = t"

text \<open>No red node has a red child.\<close>

fun no_red_red :: "'a rb_tree \<Rightarrow> bool" where
  "no_red_red Leaf = True"
| "no_red_red (Node c l k r) =
     ((c = Black \<or> (\<not> is_red l \<and> \<not> is_red r)) \<and> no_red_red l \<and> no_red_red r)"

text \<open>
  One round of the rebalancing loop, seen from the grandparent \<open>Node c l k r\<close>, after the
  insertion went into \<open>l\<close> (or into \<open>r\<close> in the mirrored function).
\<close>

definition balance_after_insert_left ::
  "color \<Rightarrow> 'a rb_tree \<Rightarrow> 'a \<Rightarrow> 'a rb_tree \<Rightarrow> 'a rb_tree" where
  "balance_after_insert_left c l k r =
     (if is_red l \<and> (is_red (left_child l) \<or> is_red (right_child l)) then
        if is_red r then Node Red (paint Black l) k (paint Black r)
        else
          let parent = (if is_red (right_child l) then tree_left_rotate l else l)
          in tree_right_rotate (Node Red (paint Black parent) k r)
      else Node c l k r)"

definition balance_after_insert_right ::
  "color \<Rightarrow> 'a rb_tree \<Rightarrow> 'a \<Rightarrow> 'a rb_tree \<Rightarrow> 'a rb_tree" where
  "balance_after_insert_right c l k r =
     (if is_red r \<and> (is_red (left_child r) \<or> is_red (right_child r)) then
        if is_red l then Node Red (paint Black l) k (paint Black r)
        else
          let parent = (if is_red (left_child r) then tree_right_rotate r else r)
          in tree_left_rotate (Node Red l k (paint Black parent))
      else Node c l k r)"

text \<open>\<open>None\<close>: a key that the comparator holds equivalent is in the tree already.\<close>

fun insert_unique :: "('a \<Rightarrow> 'a \<Rightarrow> bool) \<Rightarrow> 'a \<Rightarrow> 'a rb_tree \<Rightarrow> 'a rb_tree option" where
  "insert_unique value_comp v Leaf = Some (Node Red Leaf v Leaf)"
| "insert_unique value_comp v (Node c l k r) =
     (if value_comp v k then
        map_option (\<lambda>l'. balance_after_insert_left c l' k r) (insert_unique value_comp v l)
      else if value_comp k v then
        map_option (\<lambda>r'. balance_after_insert_right c l k r') (insert_unique value_comp v r)
      else None)"

definition set_insert :: "('a \<Rightarrow> 'a \<Rightarrow> bool) \<Rightarrow> 'a \<Rightarrow> 'a rb_tree \<Rightarrow> 'a rb_tree" where
  "set_insert value_comp v t =
     (case insert_unique value_comp v t of None \<Rightarrow> t | Some t' \<Rightarrow> paint Black t')"

fun set_iterate :: "'a rb_tree \<Rightarrow> 'a list" where
  "set_iterate Leaf = []"
| "set_iterate (Node c l k r) = set_iterate l @ k # set_iterate r"

definition set_size :: "'a rb_tree \<Rightarrow> nat" where
  "set_size t = length (set_iterate t)"

subsection \<open>The pass over the table\<close>

text \<open>The first loop nest of \<^verbatim>\<open>HandleShortenFilePaths\<close>: the set \<^verbatim>\<open>file_refs\<close>.\<close>

definition collect_file_refs :: "('a \<Rightarrow> string) \<Rightarrow> ('a, 't) ResourceTable \<Rightarrow> 'a rb_tree" where
  "collect_file_refs heap table =
     foldl (\<lambda>file_refs pkg.
       foldl (\<lambda>file_refs ty.
         foldl (\<lambda>file_refs e.
           foldl (\<lambda>file_refs config_value.
             case value' config_value of
               FileReference file_ref \<Rightarrow> set_insert (PathComparator heap) file_ref file_refs
             | OtherValue \<Rightarrow> file_refs)
           file_refs (values' e))
         file_refs (entries ty))
       file_refs (types pkg))
     Leaf (packages table)"

text \<open>
  The \<^verbatim>\<open>while\<close> loop that looks for a path not yet in \<^verbatim>\<open>shortened_paths\<close>. The
  \<^verbatim>\<open>std::unordered_set\<close> is only searched and added to, so a list of its elements stands for
  it. The loop ends because the candidates of different positive counts differ and the
  set is finite.
\<close>

function unique_shortened_path :: "string \<Rightarrow> string \<Rightarrow> string list \<Rightarrow> int \<Rightarrow> string" where
  "unique_shortened_path shortened_filename extension shortened_paths collision_count =
     (if GetShortenedPath shortened_filename extension collision_count \<in> set shortened_paths
      then unique_shortened_path shortened_filename extension shortened_paths
             (collision_count + 1)
      else GetShortenedPath shortened_filename extension collision_count)"
  by pat_completeness auto

text \<open>
  The body of the second loop of \<^verbatim>\<open>HandleShortenFilePaths\<close>, for one element of
  \<^verbatim>\<open>file_refs\<close>. The state is \<^verbatim>\<open>shortened_paths\<close>, \<^verbatim>\<open>shortened_path_map\<close> and the store
  of the paths. \<open>extract\<close> stands for \<^verbatim>\<open>util::ExtractResFilePathParts\<close>, declared in
  \<^verbatim>\<open>util/Util.h\<close>: it gives what the call leaves in \<^verbatim>\<open>res_subdir\<close>, \<^verbatim>\<open>actual_filename\<close> and
  \<^verbatim>\<open>extension\<close>.
\<close>

type_synonym 'a shorten_state = "string list \<times> (string \<rightharpoonup> string) \<times> ('a \<Rightarrow> string)"

definition shorten_file_ref ::
  "(string \<Rightarrow> 64 word) \<Rightarrow> (string \<Rightarrow> string \<times> string \<times> string) \<Rightarrow> int \<Rightarrow> 'a \<Rightarrow>
   'a shorten_state \<Rightarrow> 'a shorten_state" where
  "shorten_file_ref hash extract num_chars file_ref st =
     (case st of (shortened_paths, shortened_path_map, heap) \<Rightarrow>
        (case extract (heap file_ref) of (res_subdir, actual_filename, extension) \<Rightarrow>
           if StartsWith res_subdir ''res/color'' then st
           else
             let shortened_filename = ShortenFileName hash (heap file_ref) num_chars;
                 shortened_path =
                   unique_shortened_path shortened_filename extension shortened_paths 0
             in (shortened_path # shortened_paths,
                 map_insert (heap file_ref) shortened_path shortened_path_map,
                 heap(file_ref := shortened_path))))"

text \<open>
  \<^verbatim>\<open>file_refs.size()\<close> is a \<^verbatim>\<open>std::size_t\<close> and the parameter of \<^verbatim>\<open>OptimalShortenedLength\<close>
  an \<^verbatim>\<open>int\<close> of 32 bits: the call converts the size, keeping its low 32 bits and reading
  them as a signed number.
\<close>

definition size_to_int :: "nat \<Rightarrow> int" where
  "size_to_int n = sint (word_of_nat n :: 32 word)"

text \<open>
  \<^verbatim>\<open>HandleShortenFilePaths\<close>: the result, the store of the paths and the map. A collision
  count beyond the range of \<^verbatim>\<open>int\<close> is not considered.
\<close>

definition HandleShortenFilePaths ::
  "(string \<Rightarrow> 64 word) \<Rightarrow> (string \<Rightarrow> string \<times> string \<times> string) \<Rightarrow>
   ('a, 't) ResourceTable \<Rightarrow> ('a \<Rightarrow> string) \<Rightarrow> (string \<rightharpoonup> string) \<Rightarrow>
   bool \<times> ('a \<Rightarrow> string) \<times> (string \<rightharpoonup> string)" where
  "HandleShortenFilePaths hash extract table heap shortened_path_map =
     (let file_refs = collect_file_refs heap table;
          num_chars = OptimalShortenedLength (size_to_int (set_size file_refs))
      in case foldl (\<lambda>st file_ref. shorten_file_ref hash extract num_chars file_ref st)
                ([], shortened_path_map, heap) (set_iterate file_refs)
         of (shortened_paths, shortened_path_map, heap) \<Rightarrow> (True, heap, shortened_path_map))"

section \<open>The optimizer pass\<close>

record 't TableFlattenerOptions =
  collapse_key_stringpool :: bool
  name_collapse_exemptions :: "'t ResourceName set"
  id_resource_map :: "32 word \<rightharpoonup> string"
  shortened_path_map :: "string \<rightharpoonup> string"

record 't Obfuscator =
  options :: "'t TableFlattenerOptions"
  shorten_resource_paths :: bool
  collapse_key_stringpool' :: bool

text \<open>
  \<^verbatim>\<open>Obfuscator::Consume\<close>: the result, the object with the two maps as the pass leaves
  them, and the store of the paths.
\<close>

definition Consume ::
  "(string \<Rightarrow> 64 word) \<Rightarrow> (string \<Rightarrow> string \<times> string \<times> string) \<Rightarrow> 't Obfuscator \<Rightarrow>
   ('a, 't) ResourceTable \<Rightarrow> ('a \<Rightarrow> string) \<Rightarrow> bool \<times> 't Obfuscator \<times> ('a \<Rightarrow> string)" where
  "Consume hash extract this table heap =
     (case HandleCollapseKeyStringPool table (collapse_key_stringpool (options this))
             (name_collapse_exemptions (options this)) (id_resource_map (options this))
      of (ok, m) \<Rightarrow>
        let this = this\<lparr>options := (options this)\<lparr>id_resource_map := m\<rparr>\<rparr>
        in if shorten_resource_paths this then
             (case HandleShortenFilePaths hash extract table heap
                     (shortened_path_map (options this))
              of (ok, heap, m) \<Rightarrow>
                (ok, this\<lparr>options := (options this)\<lparr>shortened_path_map := m\<rparr>\<rparr>, heap))
           else (True, this, heap))"

definition IsEnabled :: "'t Obfuscator \<Rightarrow> bool" where
  "IsEnabled this = (shorten_resource_paths this \<or> collapse_key_stringpool' this)"

section \<open>Notions for stating the properties\<close>

text \<open>
  The addresses of the table's file references in the order the first loop nest meets
  them, and the order in which the second loop processes the collected ones.
\<close>

definition value_file_refs :: "'a ResourceConfigValue \<Rightarrow> 'a list" where
  "value_file_refs config_value =
     (case value' config_value of FileReference file_ref \<Rightarrow> [file_ref] | OtherValue \<Rightarrow> [])"

definition table_file_refs :: "('a, 't) ResourceTable \<Rightarrow> 'a list" where
  "table_file_refs table =
     concat (map (\<lambda>pkg. concat (map (\<lambda>ty. concat (map (\<lambda>e.
       concat (map value_file_refs (values' e))) (entries ty))) (types pkg))) (packages table))"

definition file_refs_order :: "('a \<Rightarrow> string) \<Rightarrow> ('a, 't) ResourceTable \<Rightarrow> 'a list" where
  "file_refs_order heap table = set_iterate (collect_file_refs heap table)"

text \<open>
  The positions in the traversal of the references that the set holds, in the order of
  iteration, from the paths in the order of the traversal alone.
\<close>

definition processed_positions :: "string list \<Rightarrow> nat list" where
  "processed_positions ps =
     set_iterate (foldl (\<lambda>s i. set_insert (PathComparator ((!) ps)) i s) Leaf [0..<length ps])"

text \<open>The test of the second loop that leaves a path as it is.\<close>

definition under_color :: "(string \<Rightarrow> string \<times> string \<times> string) \<Rightarrow> string \<Rightarrow> bool" where
  "under_color extract path = StartsWith (fst (extract path)) ''res/color''"

definition extension_of :: "(string \<Rightarrow> string \<times> string \<times> string) \<Rightarrow> string \<Rightarrow> string" where
  "extension_of extract path = snd (snd (extract path))"

text \<open>An extension that begins with a decimal digit.\<close>

definition starts_with_digit :: "string \<Rightarrow> bool" where
  "starts_with_digit str = (case str of [] \<Rightarrow> False | c # cs \<Rightarrow> c \<in> set digit_chars)"

text \<open>
  What the second loop does to the paths, as a function of the paths in the order of
  processing and of the paths assigned before: a path under \<^verbatim>\<open>res/color\<close> stays, another
  one gets the first free candidate.
\<close>

fun shorten_paths ::
  "(string \<Rightarrow> 64 word) \<Rightarrow> (string \<Rightarrow> string \<times> string \<times> string) \<Rightarrow> int \<Rightarrow>
   string list \<Rightarrow> string list \<Rightarrow> string list" where
  "shorten_paths hash extract num_chars seen [] = []"
| "shorten_paths hash extract num_chars seen (p # ps) =
     (if under_color extract p then p # shorten_paths hash extract num_chars seen ps
      else
        let q = unique_shortened_path (ShortenFileName hash p num_chars)
                  (extension_of extract p) seen 0
        in q # shorten_paths hash extract num_chars (q # seen) ps)"

text \<open>
  What the name pass records: for an entry with an id and a name that is classified
  \<^verbatim>\<open>Obfuscated\<close>, the pair of its id and its name; the pairs of a table in the order of
  the loops.
\<close>

definition obfuscated_name ::
  "bool \<Rightarrow> 't ResourceName set \<Rightarrow> 't \<Rightarrow> 'a ResourceEntry \<Rightarrow> (32 word \<times> string) list" where
  "obfuscated_name collapse exemptions ty e =
     (case id' e of
        None \<Rightarrow> []
      | Some i \<Rightarrow>
          if name e \<noteq> [] \<and>
             ObfuscateResourceName collapse exemptions ty (view_of e) outcome = Obfuscated
          then [(i, name e)] else [])"

definition obfuscated_names ::
  "bool \<Rightarrow> 't ResourceName set \<Rightarrow> ('a, 't) ResourceTable \<Rightarrow> (32 word \<times> string) list" where
  "obfuscated_names collapse exemptions table =
     concat (map (\<lambda>(ty, e). obfuscated_name collapse exemptions ty e) (table_entries table))"

text \<open>
  An implementation that \<^verbatim>\<open>std::hash\<close> may have, for the examples: FNV-1a over the bytes
  of the string, from a given offset basis.
\<close>

definition fnv1a_64 :: "64 word \<Rightarrow> string \<Rightarrow> 64 word" where
  "fnv1a_64 basis str = foldl (\<lambda>h c. (h XOR of_char c) * 0x100000001b3) basis str"

text \<open>
  Modelled from the spec: \<^verbatim>\<open>util::ExtractResFilePathParts\<close> is declared in \<^verbatim>\<open>util/Util.h\<close>
  and is not under src/. The spec has it split a path into subdirectory, base filename
  and extension, and leaves malformed paths to its fallback: here a path that does not
  start with \<^verbatim>\<open>res/\<close> or has no directory below it gives three empty pieces, and the
  extension starts at the first dot of the file name.
\<close>

definition ExtractResFilePathParts :: "string \<Rightarrow> string \<times> string \<times> string" where
  "ExtractResFilePathParts path =
     (if \<not> StartsWith path ''res/'' \<or> CHR ''/'' \<notin> set (drop 4 path) then ([], [], [])
      else
        let file = rev (takeWhile (\<lambda>c. c \<noteq> CHR ''/'') (rev path));
            dir = take (length path - length file) path
        in (dir, takeWhile (\<lambda>c. c \<noteq> CHR ''.'') file, dropWhile (\<lambda>c. c \<noteq> CHR ''.'') file))"

text \<open>
  A \<^verbatim>\<open>std::hash\<close> under which every path has the two-symbol alias \<^verbatim>\<open>Ab\<close>
  (\<open>1728 = 0 + 27 * 64\<close>), for the collision scenario of the spec.
\<close>

definition hash_Ab :: "string \<Rightarrow> 64 word" where
  "hash_Ab file_path = 1728"

subsection \<open>A small table\<close>

text \<open>
  One package with four types. The file references live at the addresses 0 to 3; two
  drawables, one layout and one colour state list.
\<close>

definition example_table :: "(nat, string) ResourceTable" where
  "example_table = ResourceTable [ResourceTablePackage [
     ResourceTableType ''string'' [
       ResourceEntry ''app_name'' (Some 0x7f010000) None [ResourceConfigValue OtherValue],
       ResourceEntry ''title'' (Some 0x7f010001) (Some (OverlayableItem []))
         [ResourceConfigValue OtherValue],
       ResourceEntry ''secret'' (Some 0x7f010002) None [ResourceConfigValue OtherValue],
       ResourceEntry [] (Some 0x7f010003) None [],
       ResourceEntry ''pending'' None None [ResourceConfigValue OtherValue]],
     ResourceTableType ''drawable'' [
       ResourceEntry ''bar'' (Some 0x7f020000) None [ResourceConfigValue (FileReference 0)],
       ResourceEntry ''foo'' (Some 0x7f020001) None
         [ResourceConfigValue (FileReference 1), ResourceConfigValue OtherValue]],
     ResourceTableType ''layout'' [
       ResourceEntry ''main'' (Some 0x7f030000) None [ResourceConfigValue (FileReference 2)]],
     ResourceTableType ''color'' [
       ResourceEntry ''tint'' (Some 0x7f040000) None [ResourceConfigValue (FileReference 3)]]]]"

definition example_heap :: "nat \<Rightarrow> string" where
  "example_heap =
     (\<lambda>a. [])(0 := ''res/drawable/bar.png'',
              1 := ''res/drawable/foo.png'',
              2 := ''res/layout/main.xml'',
              3 := ''res/color/tint.xml'')"

definition example_exemptions :: "string ResourceName set" where
  "example_exemptions = {ResourceName [] ''string'' ''app_name''}"

text \<open>The same table with its file references at other addresses, and the pass object.\<close>

definition example_table_moved :: "(nat, string) ResourceTable" where
  "example_table_moved = ResourceTable [ResourceTablePackage [
     ResourceTableType ''string'' [
       ResourceEntry ''app_name'' (Some 0x7f010000) None [ResourceConfigValue OtherValue],
       ResourceEntry ''title'' (Some 0x7f010001) (Some (OverlayableItem []))
         [ResourceConfigValue OtherValue],
       ResourceEntry ''secret'' (Some 0x7f010002) None [ResourceConfigValue OtherValue],
       ResourceEntry [] (Some 0x7f010003) None [],
       ResourceEntry ''pending'' None None [ResourceConfigValue OtherValue]],
     ResourceTableType ''drawable'' [
       ResourceEntry ''bar'' (Some 0x7f020000) None [ResourceConfigValue (FileReference 30)],
       ResourceEntry ''foo'' (Some 0x7f020001) None
         [ResourceConfigValue (FileReference 20), ResourceConfigValue OtherValue]],
     ResourceTableType ''layout'' [
       ResourceEntry ''main'' (Some 0x7f030000) None [ResourceConfigValue (FileReference 10)]],
     ResourceTableType ''color'' [
       ResourceEntry ''tint'' (Some 0x7f040000) None [ResourceConfigValue (FileReference 40)]]]]"

definition example_heap_moved :: "nat \<Rightarrow> string" where
  "example_heap_moved =
     (\<lambda>a. [])(30 := ''res/drawable/bar.png'',
              20 := ''res/drawable/foo.png'',
              10 := ''res/layout/main.xml'',
              40 := ''res/color/tint.xml'')"

definition example_obfuscator :: "string Obfuscator" where
  "example_obfuscator =
     \<lparr>options = \<lparr>collapse_key_stringpool = True,
                  name_collapse_exemptions = example_exemptions,
                  id_resource_map = Map.empty,
                  shortened_path_map = Map.empty\<rparr>,
      shorten_resource_paths = True,
      collapse_key_stringpool' = True\<rparr>"

subsection \<open>A table with many files\<close>

text \<open>
  One type with \<open>n\<close> entries, each with one file reference; the reference at address
  \<open>a\<close> has the path \<^verbatim>\<open>res/raw/f\<close>, the number \<open>a\<close>, \<^verbatim>\<open>.bin\<close>.
\<close>

definition many_files_table :: "nat \<Rightarrow> (nat, string) ResourceTable" where
  "many_files_table n = ResourceTable [ResourceTablePackage [ResourceTableType ''raw''
     (map (\<lambda>a. ResourceEntry (CHR ''f'' # to_string_nat a) (Some (of_nat a)) None
                [ResourceConfigValue (FileReference a)]) [0..<n])]]"

definition many_files_heap :: "nat \<Rightarrow> string" where
  "many_files_heap a = ''res/raw/f'' @ to_string_nat a @ ''.bin''"

text \<open>Stores for the table with two files and for the one with four.\<close>

definition two_paths_heap :: "nat \<Rightarrow> string" where
  "two_paths_heap = (\<lambda>a. [])(0 := ''res/drawable/a.png'', 1 := ''res/drawable/b.png'')"

definition two_paths_heap_swapped :: "nat \<Rightarrow> string" where
  "two_paths_heap_swapped = (\<lambda>a. [])(0 := ''res/drawable/b.png'', 1 := ''res/drawable/a.png'')"

definition repeated_path_heap :: "nat \<Rightarrow> string" where
  "repeated_path_heap =
     (\<lambda>a. [])(0 := ''res/drawable/a.png'', 1 := ''res/drawable/b.png'',
              2 := ''res/drawable/c.png'', 3 := ''res/drawable/a.png'')"

text \<open>
  Stores for the table with 4001 files: in the first the file at address 4000 has the
  path of the file at address 0 and the other paths differ, in the second every file has
  the same path.
\<close>

definition repeated_first_heap :: "nat \<Rightarrow> string" where
  "repeated_first_heap a = many_files_heap (if a = 4000 then 0 else a)"

definition one_path_heap :: "nat \<Rightarrow> string" where
  "one_path_heap a = ''res/raw/f.bin''"

section \<open>Decimal numbers and the search for a free path\<close>

lemma to_string_nat_nonempty: "to_string_nat n \<noteq> []"
  by (subst to_string_nat.simps) simp

lemma digit_chars_inj: "m < 10 \<Longrightarrow> n < 10 \<Longrightarrow> digit_chars ! m = digit_chars ! n \<Longrightarrow> m = n"
proof -
  have d: "distinct digit_chars" "length digit_chars = 10" by (simp_all add: digit_chars_def)
  show "m < 10 \<Longrightarrow> n < 10 \<Longrightarrow> digit_chars ! m = digit_chars ! n \<Longrightarrow> m = n"
    using d by (simp add: nth_eq_iff_index_eq)
qed

lemma to_string_nat_inj: "to_string_nat m = to_string_nat n \<Longrightarrow> m = n"
proof (induction m arbitrary: n rule: to_string_nat.induct)
  case (1 m)
  show ?case
  proof (cases "m < 10")
    case True
    show ?thesis
    proof (cases "n < 10")
      case True
      with \<open>m < 10\<close> "1.prems" show ?thesis
        by (simp add: to_string_nat.simps [of m] to_string_nat.simps [of n] digit_chars_inj)
    next
      case False
      with \<open>m < 10\<close> "1.prems" to_string_nat_nonempty [of "n div 10"] show ?thesis
        by (simp add: to_string_nat.simps [of m] to_string_nat.simps [of n])
    qed
  next
    case False
    show ?thesis
    proof (cases "n < 10")
      case True
      with False "1.prems" to_string_nat_nonempty [of "m div 10"] show ?thesis
        by (simp add: to_string_nat.simps [of m] to_string_nat.simps [of n])
    next
      case nf: False
      from False nf "1.prems"
      have a: "to_string_nat (m div 10) = to_string_nat (n div 10)"
        and b: "digit_chars ! (m mod 10) = digit_chars ! (n mod 10)"
        by (simp_all add: to_string_nat.simps [of m] to_string_nat.simps [of n])
      from "1.IH" [OF False a] have "m div 10 = n div 10" .
      moreover from b have "m mod 10 = n mod 10" by (simp add: digit_chars_inj)
      ultimately show ?thesis by (metis div_mult_mod_eq)
    qed
  qed
qed

lemma GetShortenedPath_inj_count:
  assumes "GetShortenedPath fn ext j = GetShortenedPath fn ext k" "1 \<le> j" "1 \<le> k"
  shows "j = k"
proof -
  from assms have "to_string_nat (nat j) = to_string_nat (nat k)"
    by (simp add: GetShortenedPath_def to_string_def)
  then have "nat j = nat k" by (rule to_string_nat_inj)
  with assms show ?thesis by simp
qed

termination unique_shortened_path
proof (relation "measure (\<lambda>(fn, ext, seen, c).
    nat (1 - c) + card {k. c \<le> k \<and> 1 \<le> k \<and> GetShortenedPath fn ext k \<in> set seen})")
  show "wf (measure (\<lambda>(fn, ext, seen, c).
    nat (1 - c) + card {k. c \<le> k \<and> 1 \<le> k \<and> GetShortenedPath fn ext k \<in> set seen}))"
    by simp
next
  fix fn ext :: string and seen :: "string list" and c :: int
  assume hit: "GetShortenedPath fn ext c \<in> set seen"
  let ?S = "\<lambda>c. {k. c \<le> k \<and> 1 \<le> k \<and> GetShortenedPath fn ext k \<in> set seen}"
  have inj: "inj_on (GetShortenedPath fn ext) {k. 1 \<le> k}"
    by (rule inj_onI) (simp add: GetShortenedPath_inj_count)
  have "finite {k. 1 \<le> k \<and> GetShortenedPath fn ext k \<in> set seen}"
  proof -
    have "{k. 1 \<le> k \<and> GetShortenedPath fn ext k \<in> set seen}
        = (GetShortenedPath fn ext -` set seen) \<inter> {k. 1 \<le> k}" by auto
    then show ?thesis using finite_vimage_IntI [OF _ inj, of "set seen"] by simp
  qed
  then have fin: "finite (?S c)" by (rule rev_finite_subset) auto
  show "((fn, ext, seen, c + 1), (fn, ext, seen, c)) \<in> measure (\<lambda>(fn, ext, seen, c).
    nat (1 - c) + card {k. c \<le> k \<and> 1 \<le> k \<and> GetShortenedPath fn ext k \<in> set seen})"
  proof (cases "1 \<le> c")
    case True
    then have "c \<in> ?S c" "c \<notin> ?S (c + 1)" "?S (c + 1) \<subseteq> ?S c" using hit by auto
    then have "?S (c + 1) \<subset> ?S c" by blast
    then have "card (?S (c + 1)) < card (?S c)" using fin by (rule psubset_card_mono [rotated])
    with True show ?thesis by simp
  next
    case False
    then have "?S (c + 1) = ?S c" by auto
    with False show ?thesis by simp
  qed
qed

declare unique_shortened_path.simps [simp del]

section \<open>The name pass\<close>

lemma foldl_concat: "foldl f a (concat xss) = foldl (foldl f) a xss"
  by (induction xss arbitrary: a) simp_all

lemma ObfuscateResourceName_observer:
  "ObfuscateResourceName collapse ex ty v f =
     f (ObfuscateResourceName collapse ex ty v outcome) (ResourceName [] ty (view_name v))"
  by (simp add: ObfuscateResourceName_def outcome_def Let_def)

lemma map_insert_add: "map_insert k v m = [k \<mapsto> v] ++ m"
  by (rule ext) (auto simp: map_add_def map_insert_def split: option.splits)

lemma collapse_entry_eq:
  "collapse_entry collapse ex ty e m = map_of (obfuscated_name collapse ex ty e) ++ m"
proof (cases "id' e")
  case None
  then show ?thesis by (simp add: collapse_entry_def obfuscated_name_def)
next
  case (Some i)
  have v: "\<lparr>view_name = name e, view_id = Some (entry_id i),
            view_overlayable_item = overlayable_item e\<rparr> = view_of e"
    by (simp add: view_of_def Some)
  show ?thesis
    unfolding collapse_entry_def obfuscated_name_def Some option.case Let_def v
    by (subst ObfuscateResourceName_observer)
       (simp add: onObfuscate_def map_insert_add view_of_def)
qed

lemma HandleCollapseKeyStringPool_flat:
  "HandleCollapseKeyStringPool table collapse ex m =
     (True, if collapse
            then foldl (\<lambda>m (ty, e). collapse_entry collapse ex ty e m) m (table_entries table)
            else m)"
  by (simp add: HandleCollapseKeyStringPool_def table_entries_def foldl_concat foldl_map)

lemma foldl_collapse_entry:
  "foldl (\<lambda>m (ty, e). collapse_entry collapse ex ty e m) m es =
     map_of (concat (map (\<lambda>(ty, e). obfuscated_name collapse ex ty e) es)) ++ m"
proof (induction es arbitrary: m)
  case Nil
  show ?case by simp
next
  case (Cons x es)
  obtain ty e where x: "x = (ty, e)" by (cases x)
  show ?case
    using Cons.IH by (simp add: x collapse_entry_eq)
qed

lemma not_collapse_no_name: "obfuscated_name False ex ty e = []"
  by (simp add: obfuscated_name_def ObfuscateResourceName_def outcome_def split: option.splits)

lemma not_collapse_no_names: "obfuscated_names False ex table = []"
  by (simp add: obfuscated_names_def not_collapse_no_name case_prod_unfold)

lemma HandleCollapseKeyStringPool_map_of:
  "HandleCollapseKeyStringPool table collapse ex m =
     (True, map_of (obfuscated_names collapse ex table) ++ m)"
proof (cases collapse)
  case True
  then show ?thesis
    by (simp add: HandleCollapseKeyStringPool_flat foldl_collapse_entry obfuscated_names_def)
next
  case False
  then show ?thesis
    by (simp add: HandleCollapseKeyStringPool_flat not_collapse_no_names)
qed

lemma obfuscated_names_mem:
  "(i, n) \<in> set (obfuscated_names collapse ex table) \<longleftrightarrow>
     (\<exists>(ty, e) \<in> set (table_entries table). id' e = Some i \<and> name e = n \<and> n \<noteq> [] \<and>
        ObfuscateResourceName collapse ex ty (view_of e) outcome = Obfuscated)"
proof
  assume "(i, n) \<in> set (obfuscated_names collapse ex table)"
  then obtain ty e where "(ty, e) \<in> set (table_entries table)"
    and "(i, n) \<in> set (obfuscated_name collapse ex ty e)"
    by (auto simp: obfuscated_names_def)
  then show "\<exists>(ty, e) \<in> set (table_entries table). id' e = Some i \<and> name e = n \<and> n \<noteq> [] \<and>
        ObfuscateResourceName collapse ex ty (view_of e) outcome = Obfuscated"
    by (cases "id' e") (auto simp: obfuscated_name_def split: if_splits)
next
  assume "\<exists>(ty, e) \<in> set (table_entries table). id' e = Some i \<and> name e = n \<and> n \<noteq> [] \<and>
        ObfuscateResourceName collapse ex ty (view_of e) outcome = Obfuscated"
  then obtain ty e where "(ty, e) \<in> set (table_entries table)" "id' e = Some i" "name e = n"
    "n \<noteq> []" "ObfuscateResourceName collapse ex ty (view_of e) outcome = Obfuscated"
    by auto
  then have "(ty, e) \<in> set (table_entries table)"
    "(i, n) \<in> set (obfuscated_name collapse ex ty e)"
    by (simp_all add: obfuscated_name_def)
  then show "(i, n) \<in> set (obfuscated_names collapse ex table)"
    unfolding obfuscated_names_def by (simp only: set_concat set_map) blast
qed

lemma id_resource_map_provenance:
  assumes "snd (HandleCollapseKeyStringPool table collapse ex m) i = Some n"
  shows "m i = Some n \<or>
     (\<exists>(ty, e) \<in> set (table_entries table). id' e = Some i \<and> name e = n \<and> n \<noteq> [] \<and>
        ObfuscateResourceName collapse ex ty (view_of e) outcome = Obfuscated)"
proof (cases "m i")
  case None
  with assms have "map_of (obfuscated_names collapse ex table) i = Some n"
    by (simp add: HandleCollapseKeyStringPool_map_of map_add_def)
  then have "(i, n) \<in> set (obfuscated_names collapse ex table)" by (rule map_of_SomeD)
  then show ?thesis by (simp add: obfuscated_names_mem)
next
  case (Some a)
  with assms show ?thesis by (simp add: HandleCollapseKeyStringPool_map_of map_add_def)
qed

lemma example_table_entries:
  "table_entries example_table =
     [(''string'', ResourceEntry ''app_name'' (Some 0x7f010000) None
         [ResourceConfigValue OtherValue]),
      (''string'', ResourceEntry ''title'' (Some 0x7f010001) (Some (OverlayableItem []))
         [ResourceConfigValue OtherValue]),
      (''string'', ResourceEntry ''secret'' (Some 0x7f010002) None
         [ResourceConfigValue OtherValue]),
      (''string'', ResourceEntry [] (Some 0x7f010003) None []),
      (''string'', ResourceEntry ''pending'' None None [ResourceConfigValue OtherValue]),
      (''drawable'', ResourceEntry ''bar'' (Some 0x7f020000) None
         [ResourceConfigValue (FileReference 0)]),
      (''drawable'', ResourceEntry ''foo'' (Some 0x7f020001) None
         [ResourceConfigValue (FileReference 1), ResourceConfigValue OtherValue]),
      (''layout'', ResourceEntry ''main'' (Some 0x7f030000) None
         [ResourceConfigValue (FileReference 2)]),
      (''color'', ResourceEntry ''tint'' (Some 0x7f040000) None
         [ResourceConfigValue (FileReference 3)])]"
  by (simp add: table_entries_def example_table_def)

lemma example_obfuscated_names:
  "obfuscated_names True example_exemptions example_table =
     [(0x7f010002, ''secret''), (0x7f020000, ''bar''), (0x7f020001, ''foo''),
      (0x7f030000, ''main''), (0x7f040000, ''tint'')]"
  by (simp add: obfuscated_names_def obfuscated_name_def example_table_entries
      example_exemptions_def ObfuscateResourceName_def outcome_def view_of_def)

lemma example_id_resource_map:
  "snd (HandleCollapseKeyStringPool example_table True example_exemptions Map.empty) =
     [0x7f040000 \<mapsto> ''tint'', 0x7f030000 \<mapsto> ''main'', 0x7f020001 \<mapsto> ''foo'',
      0x7f020000 \<mapsto> ''bar'', 0x7f010002 \<mapsto> ''secret'']"
  by (simp add: HandleCollapseKeyStringPool_map_of example_obfuscated_names)

text \<open>
  C6. The outcome is decided in order: \<^verbatim>\<open>Keep_ExemptionList\<close> when collapsing is disabled
  or the name built from the type and the entry's name is in the exemption set; otherwise
  \<^verbatim>\<open>Keep_Overlayable\<close> when the entry has an overlayable marker; otherwise
  \<^verbatim>\<open>Obfuscated\<close>. The observer is called with that outcome and that name. And no binding
  of \<^verbatim>\<open>id_resource_map\<close> is made for an exempt name: a binding that the name pass leaves
  in the map was there before or comes from an entry of the table whose name is not in
  the exemption set.
\<close>

theorem ObfuscateResourceName_decision_order:
  "ObfuscateResourceName collapse ex ty v f =
     f (if \<not> collapse \<or> ResourceName [] ty (view_name v) \<in> ex then Keep_ExemptionList
        else if view_overlayable_item v \<noteq> None then Keep_Overlayable
        else Obfuscated)
       (ResourceName [] ty (view_name v))
   \<and> (\<forall>i n. snd (HandleCollapseKeyStringPool table collapse ex m) i = Some n \<longrightarrow>
         m i = Some n \<or>
         (\<exists>(ty, e) \<in> set (table_entries table). id' e = Some i \<and> name e = n \<and>
            ResourceName [] ty (name e) \<notin> ex))"
proof (intro conjI allI impI)
  show "ObfuscateResourceName collapse ex ty v f =
     f (if \<not> collapse \<or> ResourceName [] ty (view_name v) \<in> ex then Keep_ExemptionList
        else if view_overlayable_item v \<noteq> None then Keep_Overlayable
        else Obfuscated)
       (ResourceName [] ty (view_name v))"
    by (simp add: ObfuscateResourceName_def Let_def)
next
  fix i n
  assume "snd (HandleCollapseKeyStringPool table collapse ex m) i = Some n"
  from id_resource_map_provenance [OF this]
  show "m i = Some n \<or>
         (\<exists>(ty, e) \<in> set (table_entries table). id' e = Some i \<and> name e = n \<and>
            ResourceName [] ty (name e) \<notin> ex)"
  proof
    assume "m i = Some n"
    then show ?thesis ..
  next
    assume "\<exists>(ty, e) \<in> set (table_entries table). id' e = Some i \<and> name e = n \<and> n \<noteq> [] \<and>
        ObfuscateResourceName collapse ex ty (view_of e) outcome = Obfuscated"
    then obtain ty e where e: "(ty, e) \<in> set (table_entries table)" "id' e = Some i"
      "name e = n" "ObfuscateResourceName collapse ex ty (view_of e) outcome = Obfuscated"
      by auto
    from e(4) have "ResourceName [] ty (name e) \<notin> ex"
      by (auto simp: ObfuscateResourceName_def outcome_def view_of_def Let_def
          split: if_splits)
    with e show ?thesis by blast
  qed
qed

theorem ObfuscateResourceName_decision_order_witness:
  "ObfuscateResourceName True example_exemptions ''string''
     \<lparr>view_name = ''app_name'', view_id = Some 0, view_overlayable_item = None\<rparr> outcome
     = Keep_ExemptionList
   \<and> ObfuscateResourceName True example_exemptions ''string''
     \<lparr>view_name = ''title'', view_id = Some 1,
      view_overlayable_item = Some (OverlayableItem [])\<rparr> outcome
     = Keep_Overlayable
   \<and> ObfuscateResourceName True example_exemptions ''string''
     \<lparr>view_name = ''secret'', view_id = Some 2, view_overlayable_item = None\<rparr> outcome
     = Obfuscated
   \<and> snd (HandleCollapseKeyStringPool example_table True example_exemptions Map.empty)
       0x7f010002 = Some ''secret''
   \<and> (\<exists>(ty, e) \<in> set (table_entries example_table). id' e = Some 0x7f010002 \<and>
         name e = ''secret'' \<and> ResourceName [] ty (name e) \<notin> example_exemptions)
   \<and> snd (HandleCollapseKeyStringPool example_table True example_exemptions Map.empty)
       0x7f010000 = None"
proof -
  have b: "snd (HandleCollapseKeyStringPool example_table True example_exemptions Map.empty)
       0x7f010002 = Some ''secret''"
    by (simp add: example_id_resource_map)
  have n: "snd (HandleCollapseKeyStringPool example_table True example_exemptions Map.empty)
       0x7f010000 = None"
    by (simp add: example_id_resource_map)
  note t = ObfuscateResourceName_decision_order
    [where collapse = True and ex = example_exemptions and ty = "''string''"
       and table = example_table and m = Map.empty and f = outcome]
  from t [where v = "\<lparr>view_name = ''app_name'', view_id = Some 0,
      view_overlayable_item = None\<rparr>"]
  have 1: "ObfuscateResourceName True example_exemptions ''string''
     \<lparr>view_name = ''app_name'', view_id = Some 0, view_overlayable_item = None\<rparr> outcome
     = Keep_ExemptionList"
    by (simp add: example_exemptions_def outcome_def)
  from t [where v = "\<lparr>view_name = ''title'', view_id = Some 1,
      view_overlayable_item = Some (OverlayableItem [])\<rparr>"]
  have 2: "ObfuscateResourceName True example_exemptions ''string''
     \<lparr>view_name = ''title'', view_id = Some 1,
      view_overlayable_item = Some (OverlayableItem [])\<rparr> outcome
     = Keep_Overlayable"
    by (simp add: example_exemptions_def outcome_def)
  from t [where v = "\<lparr>view_name = ''secret'', view_id = Some 2,
      view_overlayable_item = None\<rparr>"]
  have 3: "ObfuscateResourceName True example_exemptions ''string''
     \<lparr>view_name = ''secret'', view_id = Some 2, view_overlayable_item = None\<rparr> outcome
     = Obfuscated"
    and 4: "\<exists>(ty, e) \<in> set (table_entries example_table). id' e = Some 0x7f010002 \<and>
         name e = ''secret'' \<and> ResourceName [] ty (name e) \<notin> example_exemptions"
    using b by (simp_all add: example_exemptions_def outcome_def)
  from 1 2 3 4 b n show ?thesis by blast
qed

text \<open>
  C5, as the code has it. An entry with an overlayable marker is classified
  \<^verbatim>\<open>Keep_Overlayable\<close> when collapsing is enabled and its name is not in the exemption
  set, and \<^verbatim>\<open>Keep_ExemptionList\<close> otherwise: the exemption test comes first. In both
  cases no binding of \<^verbatim>\<open>id_resource_map\<close> is made for it: a binding that the name pass
  leaves in the map was there before or comes from an entry without the marker.
\<close>

theorem overlayable_entry_outcome:
  "(view_overlayable_item v \<noteq> None \<longrightarrow>
      ObfuscateResourceName collapse ex ty v f =
        f (if \<not> collapse \<or> ResourceName [] ty (view_name v) \<in> ex then Keep_ExemptionList
           else Keep_Overlayable)
          (ResourceName [] ty (view_name v)))
   \<and> (\<forall>i n. snd (HandleCollapseKeyStringPool table collapse ex m) i = Some n \<longrightarrow>
         m i = Some n \<or>
         (\<exists>(ty, e) \<in> set (table_entries table). id' e = Some i \<and> name e = n \<and>
            overlayable_item e = None))"
proof (intro conjI allI impI)
  assume "view_overlayable_item v \<noteq> None"
  then show "ObfuscateResourceName collapse ex ty v f =
        f (if \<not> collapse \<or> ResourceName [] ty (view_name v) \<in> ex then Keep_ExemptionList
           else Keep_Overlayable)
          (ResourceName [] ty (view_name v))"
    by (simp add: ObfuscateResourceName_def Let_def)
next
  fix i n
  assume "snd (HandleCollapseKeyStringPool table collapse ex m) i = Some n"
  from id_resource_map_provenance [OF this]
  show "m i = Some n \<or>
         (\<exists>(ty, e) \<in> set (table_entries table). id' e = Some i \<and> name e = n \<and>
            overlayable_item e = None)"
  proof
    assume "m i = Some n"
    then show ?thesis ..
  next
    assume "\<exists>(ty, e) \<in> set (table_entries table). id' e = Some i \<and> name e = n \<and> n \<noteq> [] \<and>
        ObfuscateResourceName collapse ex ty (view_of e) outcome = Obfuscated"
    then obtain ty e where e: "(ty, e) \<in> set (table_entries table)" "id' e = Some i"
      "name e = n" "ObfuscateResourceName collapse ex ty (view_of e) outcome = Obfuscated"
      by auto
    from e(4) have "overlayable_item e = None"
      by (auto simp: ObfuscateResourceName_def outcome_def view_of_def Let_def
          split: if_splits)
    with e show ?thesis by blast
  qed
qed

theorem overlayable_entry_outcome_witness:
  "ObfuscateResourceName True example_exemptions ''string''
     \<lparr>view_name = ''title'', view_id = Some 1,
      view_overlayable_item = Some (OverlayableItem [])\<rparr> outcome
     = Keep_Overlayable
   \<and> ObfuscateResourceName False example_exemptions ''string''
     \<lparr>view_name = ''title'', view_id = Some 1,
      view_overlayable_item = Some (OverlayableItem [])\<rparr> outcome
     = Keep_ExemptionList
   \<and> snd (HandleCollapseKeyStringPool example_table True example_exemptions Map.empty)
       0x7f010002 = Some ''secret''
   \<and> (\<exists>(ty, e) \<in> set (table_entries example_table). id' e = Some 0x7f010002 \<and>
         name e = ''secret'' \<and> overlayable_item e = None)
   \<and> snd (HandleCollapseKeyStringPool example_table True example_exemptions Map.empty)
       0x7f010001 = None"
proof -
  have b: "snd (HandleCollapseKeyStringPool example_table True example_exemptions Map.empty)
       0x7f010002 = Some ''secret''"
    by (simp add: example_id_resource_map)
  have n: "snd (HandleCollapseKeyStringPool example_table True example_exemptions Map.empty)
       0x7f010001 = None"
    by (simp add: example_id_resource_map)
  note t = overlayable_entry_outcome
    [where ex = example_exemptions and ty = "''string''" and f = outcome
       and v = "\<lparr>view_name = ''title'', view_id = Some 1,
                view_overlayable_item = Some (OverlayableItem [])\<rparr>"]
  from t [where collapse = True and table = example_table and m = Map.empty]
  have 1: "ObfuscateResourceName True example_exemptions ''string''
     \<lparr>view_name = ''title'', view_id = Some 1,
      view_overlayable_item = Some (OverlayableItem [])\<rparr> outcome
     = Keep_Overlayable"
    and 3: "\<exists>(ty, e) \<in> set (table_entries example_table). id' e = Some 0x7f010002 \<and>
         name e = ''secret'' \<and> overlayable_item e = None"
    using b by (simp_all add: example_exemptions_def outcome_def)
  from t [where collapse = False and table = example_table and m = Map.empty]
  have 2: "ObfuscateResourceName False example_exemptions ''string''
     \<lparr>view_name = ''title'', view_id = Some 1,
      view_overlayable_item = Some (OverlayableItem [])\<rparr> outcome
     = Keep_ExemptionList"
    by (simp add: outcome_def)
  from 1 2 3 b n show ?thesis by blast
qed

text \<open>
  C5 as the spec states it fails: an entry with an overlayable marker whose name is in
  the exemption set is classified \<^verbatim>\<open>Keep_ExemptionList\<close>, with collapsing enabled.
\<close>

theorem overlayable_exempt_counterexample:
  "view_overlayable_item \<lparr>view_name = ''app_name'', view_id = Some 0,
      view_overlayable_item = Some (OverlayableItem [])\<rparr> \<noteq> None
   \<and> ResourceName [] ''string'' ''app_name'' \<in> example_exemptions
   \<and> ObfuscateResourceName True example_exemptions ''string''
     \<lparr>view_name = ''app_name'', view_id = Some 0,
      view_overlayable_item = Some (OverlayableItem [])\<rparr> outcome
     = Keep_ExemptionList
   \<and> ObfuscateResourceName True example_exemptions ''string''
     \<lparr>view_name = ''app_name'', view_id = Some 0,
      view_overlayable_item = Some (OverlayableItem [])\<rparr> outcome
     \<noteq> Keep_Overlayable"
  by (simp add: ObfuscateResourceName_def example_exemptions_def outcome_def)

text \<open>
  C9. The driver leaves the map as it is for an entry without an id or with an empty
  name. Over a table it returns true and the map extended, by \<^verbatim>\<open>insert\<close>, with the pair
  of id and name of exactly the entries that have an id, a name that is not empty, and the
  outcome \<^verbatim>\<open>Obfuscated\<close>; entries with another outcome add nothing. (With \<^verbatim>\<open>insert\<close>, an
  id that is bound already keeps its name.)
\<close>

theorem HandleCollapseKeyStringPool_records_obfuscated:
  "(id' e = None \<or> name e = [] \<longrightarrow> collapse_entry collapse ex ty e m = m)
   \<and> HandleCollapseKeyStringPool table collapse ex m =
       (True, map_of (obfuscated_names collapse ex table) ++ m)
   \<and> ((i, n) \<in> set (obfuscated_names collapse ex table) \<longleftrightarrow>
        (\<exists>(ty, e) \<in> set (table_entries table). id' e = Some i \<and> name e = n \<and> n \<noteq> [] \<and>
           ObfuscateResourceName collapse ex ty (view_of e) outcome = Obfuscated))"
proof (intro conjI impI)
  assume "id' e = None \<or> name e = []"
  then show "collapse_entry collapse ex ty e m = m"
    by (auto simp: collapse_entry_def split: option.splits)
next
  show "HandleCollapseKeyStringPool table collapse ex m =
       (True, map_of (obfuscated_names collapse ex table) ++ m)"
    by (rule HandleCollapseKeyStringPool_map_of)
next
  show "(i, n) \<in> set (obfuscated_names collapse ex table) \<longleftrightarrow>
        (\<exists>(ty, e) \<in> set (table_entries table). id' e = Some i \<and> name e = n \<and> n \<noteq> [] \<and>
           ObfuscateResourceName collapse ex ty (view_of e) outcome = Obfuscated)"
    by (rule obfuscated_names_mem)
qed

theorem HandleCollapseKeyStringPool_records_obfuscated_witness:
  "collapse_entry True example_exemptions ''string''
      (ResourceEntry ''pending'' None None [ResourceConfigValue OtherValue])
      [0x7f010002 \<mapsto> ''secret''] = [0x7f010002 \<mapsto> ''secret'']
   \<and> HandleCollapseKeyStringPool example_table True example_exemptions Map.empty =
       (True, [0x7f040000 \<mapsto> ''tint'', 0x7f030000 \<mapsto> ''main'', 0x7f020001 \<mapsto> ''foo'',
               0x7f020000 \<mapsto> ''bar'', 0x7f010002 \<mapsto> ''secret''])
   \<and> (\<exists>(ty, e) \<in> set (table_entries example_table). id' e = Some 0x7f010002 \<and>
         name e = ''secret'' \<and>
         ObfuscateResourceName True example_exemptions ty (view_of e) outcome = Obfuscated)"
proof -
  note t = HandleCollapseKeyStringPool_records_obfuscated
    [where collapse = True and ex = example_exemptions and ty = "''string''"
       and e = "ResourceEntry ''pending'' None None [ResourceConfigValue OtherValue]"
       and m = "[0x7f010002 \<mapsto> ''secret'']" and i = "0x7f010002" and n = "''secret''"
       and table = example_table]
  from t [THEN conjunct1] have 1: "collapse_entry True example_exemptions ''string''
      (ResourceEntry ''pending'' None None [ResourceConfigValue OtherValue])
      [0x7f010002 \<mapsto> ''secret''] = [0x7f010002 \<mapsto> ''secret'']"
    by simp
  from t [THEN conjunct2, THEN conjunct2] have 3: "\<exists>(ty, e) \<in> set (table_entries example_table). id' e = Some 0x7f010002 \<and>
         name e = ''secret'' \<and>
         ObfuscateResourceName True example_exemptions ty (view_of e) outcome = Obfuscated"
    by (simp add: example_obfuscated_names)
  have 2: "HandleCollapseKeyStringPool example_table True example_exemptions Map.empty =
       (True, [0x7f040000 \<mapsto> ''tint'', 0x7f030000 \<mapsto> ''main'', 0x7f020001 \<mapsto> ''foo'',
               0x7f020000 \<mapsto> ''bar'', 0x7f010002 \<mapsto> ''secret''])"
    using HandleCollapseKeyStringPool_records_obfuscated
      [where collapse = True and ex = example_exemptions and m = Map.empty
         and table = example_table, THEN conjunct2, THEN conjunct1]
    by (simp add: example_obfuscated_names)
  from 1 2 3 show ?thesis by blast
qed

section \<open>The set of file references\<close>

lemma set_iterate_paint [simp]: "set_iterate (paint c t) = set_iterate t"
  by (cases t) simp_all

lemma set_iterate_left_rotate [simp]: "set_iterate (tree_left_rotate t) = set_iterate t"
  by (induction t rule: tree_left_rotate.induct) simp_all

lemma set_iterate_right_rotate [simp]: "set_iterate (tree_right_rotate t) = set_iterate t"
  by (induction t rule: tree_right_rotate.induct) simp_all

lemma set_iterate_balance_left [simp]:
  "set_iterate (balance_after_insert_left c l k r) = set_iterate l @ k # set_iterate r"
  by (simp add: balance_after_insert_left_def Let_def)

lemma set_iterate_balance_right [simp]:
  "set_iterate (balance_after_insert_right c l k r) = set_iterate l @ k # set_iterate r"
  by (simp add: balance_after_insert_right_def Let_def)

lemma insert_unique_iterate:
  "insert_unique value_comp v t = Some t' \<Longrightarrow>
     \<exists>xs ys. set_iterate t = xs @ ys \<and> set_iterate t' = xs @ v # ys"
proof (induction t arbitrary: t')
  case Leaf
  then show ?case by auto
next
  case (Node c l k r)
  show ?case
  proof (cases "value_comp v k")
    case True
    with Node.prems obtain l' where l': "insert_unique value_comp v l = Some l'"
      and t': "t' = balance_after_insert_left c l' k r" by auto
    from Node.IH(1) [OF l'] obtain xs ys where
      "set_iterate l = xs @ ys" "set_iterate l' = xs @ v # ys" by blast
    then have "set_iterate (Node c l k r) = xs @ (ys @ k # set_iterate r)"
      "set_iterate t' = xs @ v # (ys @ k # set_iterate r)" by (simp_all add: t')
    then show ?thesis by blast
  next
    case False
    with Node.prems obtain r' where r': "insert_unique value_comp v r = Some r'"
      and t': "t' = balance_after_insert_right c l k r'" by (auto split: if_splits)
    from Node.IH(2) [OF r'] obtain xs ys where
      "set_iterate r = xs @ ys" "set_iterate r' = xs @ v # ys" by blast
    then have "set_iterate (Node c l k r) = (set_iterate l @ k # xs) @ ys"
      "set_iterate t' = (set_iterate l @ k # xs) @ v # ys" by (simp_all add: t')
    then show ?thesis by blast
  qed
qed

lemma set_insert_iterate:
  "set_iterate (set_insert value_comp v t) = set_iterate t \<or>
   (\<exists>xs ys. set_iterate t = xs @ ys \<and> set_iterate (set_insert value_comp v t) = xs @ v # ys)"
proof (cases "insert_unique value_comp v t")
  case None
  then show ?thesis by (simp add: set_insert_def)
next
  case (Some t')
  from insert_unique_iterate [OF Some] show ?thesis by (simp add: set_insert_def Some)
qed

lemma compare_eq_0: "compare a b = 0 \<longleftrightarrow> a = b"
  by (induction a b rule: compare.induct) (auto simp: of_char_eq_iff [where ?'a = nat, symmetric] simp del: of_char_eq_iff)

lemma PathComparator_neq: "PathComparator heap lhs rhs \<longleftrightarrow> heap lhs \<noteq> heap rhs"
  by (simp add: PathComparator_def compare_eq_0)

lemma insert_unique_path_Node:
  "insert_unique (PathComparator heap) v (Node c l k r) =
     (if heap v \<noteq> heap k
      then map_option (\<lambda>l'. balance_after_insert_left c l' k r)
             (insert_unique (PathComparator heap) v l)
      else None)"
proof -
  have pc: "PathComparator heap v k = (heap v \<noteq> heap k)"
    "PathComparator heap k v = (heap v \<noteq> heap k)"
    by (auto simp: PathComparator_neq)
  show ?thesis by (simp only: insert_unique.simps pc if_cancel split: if_splits) simp
qed

lemma insert_unique_path_front:
  "insert_unique (PathComparator heap) v t = Some t' \<Longrightarrow> set_iterate t' = v # set_iterate t"
proof (induction t arbitrary: t')
  case Leaf
  then show ?case by auto
next
  case (Node c l k r)
  from Node.prems obtain l' where l': "insert_unique (PathComparator heap) v l = Some l'"
      and t': "t' = balance_after_insert_left c l' k r"
    by (auto simp only: insert_unique_path_Node split: if_splits)
  from Node.IH(1) [OF l'] show ?case by (simp add: t')
qed

lemma insert_unique_path_new:
  "\<forall>k \<in> set (set_iterate t). heap k \<noteq> heap v \<Longrightarrow>
     insert_unique (PathComparator heap) v t \<noteq> None"
proof (induction t)
  case Leaf
  show ?case by simp
next
  case (Node c l k r)
  from Node.prems have "heap v \<noteq> heap k" and "\<forall>k \<in> set (set_iterate l). heap k \<noteq> heap v"
    by auto
  with Node.IH(1) show ?case by (simp only: insert_unique_path_Node) simp
qed

lemma set_insert_path:
  "set_iterate (set_insert (PathComparator heap) v t) = set_iterate t \<or>
   set_iterate (set_insert (PathComparator heap) v t) = v # set_iterate t"
proof (cases "insert_unique (PathComparator heap) v t")
  case None
  then show ?thesis by (simp add: set_insert_def)
next
  case (Some t')
  from insert_unique_path_front [OF Some] show ?thesis by (simp add: set_insert_def Some)
qed

lemma set_insert_path_new:
  assumes "\<forall>k \<in> set (set_iterate t). heap k \<noteq> heap v"
  shows "set_iterate (set_insert (PathComparator heap) v t) = v # set_iterate t"
proof -
  from insert_unique_path_new [OF assms] obtain t' where
    t': "insert_unique (PathComparator heap) v t = Some t'" by auto
  from insert_unique_path_front [OF t'] show ?thesis by (simp add: set_insert_def t')
qed

lemma collect_file_refs_flat:
  "collect_file_refs heap table =
     foldl (\<lambda>file_refs file_ref. set_insert (PathComparator heap) file_ref file_refs) Leaf
       (table_file_refs table)"
proof -
  have v: "\<And>s cv. (case value' cv of
               FileReference file_ref \<Rightarrow> set_insert (PathComparator heap) file_ref s
             | OtherValue \<Rightarrow> s) =
      foldl (\<lambda>file_refs file_ref. set_insert (PathComparator heap) file_ref file_refs) s
        (value_file_refs cv)"
    by (simp add: value_file_refs_def split: Value.splits)
  show ?thesis
    by (simp add: collect_file_refs_def table_file_refs_def foldl_concat foldl_map v)
qed

lemma foldl_set_insert_path:
  "distinct (set_iterate t @ rev as) \<Longrightarrow>
   distinct (set_iterate (foldl (\<lambda>s a. set_insert (PathComparator heap) a s) t as)) \<and>
   set (set_iterate (foldl (\<lambda>s a. set_insert (PathComparator heap) a s) t as))
     \<subseteq> set (set_iterate t) \<union> set as"
proof (induction as arbitrary: t)
  case Nil
  then show ?case by simp
next
  case (Cons a as)
  let ?t = "set_insert (PathComparator heap) a t"
  from set_insert_path [of heap a t] Cons.prems
  have d: "distinct (set_iterate ?t @ rev as)" and s: "set (set_iterate ?t) \<subseteq> insert a (set (set_iterate t))"
    by auto
  from Cons.IH [OF d] s show ?case by auto
qed

lemma file_refs_order_distinct:
  assumes "distinct (table_file_refs table)"
  shows "distinct (file_refs_order heap table)"
    and "set (file_refs_order heap table) \<subseteq> set (table_file_refs table)"
  using foldl_set_insert_path [of Leaf "table_file_refs table" heap] assms
  by (simp_all add: file_refs_order_def collect_file_refs_flat)

lemma foldl_set_insert_path_new:
  "distinct (map heap (set_iterate t @ as)) \<Longrightarrow>
   set_iterate (foldl (\<lambda>s a. set_insert (PathComparator heap) a s) t as) = rev as @ set_iterate t"
proof (induction as arbitrary: t)
  case Nil
  show ?case by simp
next
  case (Cons a as)
  from Cons.prems have "heap a \<notin> heap ` set (set_iterate t)" by auto
  then have "\<forall>k \<in> set (set_iterate t). heap k \<noteq> heap a" by (metis imageI)
  from set_insert_path_new [OF this]
  have e: "set_iterate (set_insert (PathComparator heap) a t) = a # set_iterate t" .
  with Cons.prems have "distinct (map heap (set_iterate (set_insert (PathComparator heap) a t) @ as))"
    by auto
  from Cons.IH [OF this] e show ?case by simp
qed

lemma file_refs_order_rev:
  "distinct (map heap (table_file_refs table)) \<Longrightarrow>
     file_refs_order heap table = rev (table_file_refs table)"
  using foldl_set_insert_path_new [of heap Leaf "table_file_refs table"]
  by (simp add: file_refs_order_def collect_file_refs_flat)

lemma no_red_red_children:
  "no_red_red t \<Longrightarrow> no_red_red (left_child t) \<and> no_red_red (right_child t)"
  by (cases t) simp_all

lemma no_red_red_paint: "no_red_red (left_child t) \<Longrightarrow> no_red_red (right_child t) \<Longrightarrow>
    no_red_red (paint Black t)"
  by (cases t) simp_all

lemma is_red_paint_Black [simp]: "\<not> is_red (paint Black t)"
  by (cases t) simp_all

lemma is_red_Node: "is_red t \<longleftrightarrow> (\<exists>l k r. t = Node Red l k r)"
  by (cases t rule: is_red.cases) simp_all

lemma balance_left_no_red_red:
  assumes "no_red_red (left_child l')" "no_red_red (right_child l')" "no_red_red r"
    and "is_red l' \<longrightarrow> \<not> (is_red (left_child l') \<and> is_red (right_child l'))"
    and "c = Black \<or> (\<not> is_red l' \<and> \<not> is_red r)"
  shows "no_red_red (balance_after_insert_left c l' k r)"
proof (cases "is_red l' \<and> (is_red (left_child l') \<or> is_red (right_child l'))")
  case False
  with assms show ?thesis
    by (cases l' rule: is_red.cases) (auto simp: balance_after_insert_left_def)
next
  case True
  then obtain a x b where l': "l' = Node Red a x b" by (auto simp: is_red_Node)
  show ?thesis
  proof (cases "is_red r")
    case r: True
    with True assms show ?thesis
      by (cases r rule: is_red.cases) (auto simp: balance_after_insert_left_def l')
  next
    case r: False
    show ?thesis
    proof (cases "is_red b")
      case True
      then obtain b1 y b2 where b: "b = Node Red b1 y b2" by (auto simp: is_red_Node)
      with r assms l' show ?thesis
        by (auto simp: balance_after_insert_left_def)
    next
      case False
      with True l' have "is_red a" by simp
      then obtain a1 y a2 where a: "a = Node Red a1 y a2" by (auto simp: is_red_Node)
      with False r assms l' show ?thesis
        by (auto simp: balance_after_insert_left_def)
    qed
  qed
qed

lemma balance_right_no_red_red:
  assumes "no_red_red (left_child r')" "no_red_red (right_child r')" "no_red_red l"
    and "is_red r' \<longrightarrow> \<not> (is_red (left_child r') \<and> is_red (right_child r'))"
    and "c = Black \<or> (\<not> is_red r' \<and> \<not> is_red l)"
  shows "no_red_red (balance_after_insert_right c l k r')"
proof (cases "is_red r' \<and> (is_red (left_child r') \<or> is_red (right_child r'))")
  case False
  with assms show ?thesis
    by (cases r' rule: is_red.cases) (auto simp: balance_after_insert_right_def)
next
  case True
  then obtain a x b where r': "r' = Node Red a x b" by (auto simp: is_red_Node)
  show ?thesis
  proof (cases "is_red l")
    case l: True
    with True assms show ?thesis
      by (cases l rule: is_red.cases) (auto simp: balance_after_insert_right_def r')
  next
    case l: False
    show ?thesis
    proof (cases "is_red a")
      case True
      then obtain a1 y a2 where a: "a = Node Red a1 y a2" by (auto simp: is_red_Node)
      with l assms r' show ?thesis
        by (auto simp: balance_after_insert_right_def)
    next
      case False
      with True r' have "is_red b" by simp
      then obtain b1 y b2 where b: "b = Node Red b1 y b2" by (auto simp: is_red_Node)
      with False l assms r' show ?thesis
        by (auto simp: balance_after_insert_right_def)
    qed
  qed
qed

lemma insert_unique_no_red_red:
  "no_red_red t \<Longrightarrow> insert_unique value_comp v t = Some t' \<Longrightarrow>
     no_red_red (left_child t') \<and> no_red_red (right_child t') \<and>
     (is_red t' \<longrightarrow> \<not> (is_red (left_child t') \<and> is_red (right_child t'))) \<and>
     (\<not> is_red t \<longrightarrow> no_red_red t')"
proof (induction t arbitrary: t')
  case Leaf
  then show ?case by auto
next
  case (Node c l k r)
  from Node.prems(1) have nl: "no_red_red l" and nr: "no_red_red r" by simp_all
  show ?case
  proof (cases "value_comp v k")
    case True
    with Node.prems obtain l' where l': "insert_unique value_comp v l = Some l'"
      and t': "t' = balance_after_insert_left c l' k r" by auto
    note ih = Node.IH(1) [OF nl l']
    show ?thesis
    proof (cases c)
      case Red
      with Node.prems(1) have "\<not> is_red l" "\<not> is_red r" by simp_all
      with ih have "no_red_red l'" by simp
      then have "\<not> (is_red l' \<and> (is_red (left_child l') \<or> is_red (right_child l')))"
        by (cases l' rule: is_red.cases) auto
      then have "t' = Node Red l' k r" by (auto simp: t' balance_after_insert_left_def Red)
      with \<open>no_red_red l'\<close> nr \<open>\<not> is_red r\<close> Red show ?thesis by simp
    next
      case Black
      with ih nr have n: "no_red_red t'"
        unfolding t' by (intro balance_left_no_red_red) simp_all
      have "is_red t' \<longrightarrow> \<not> (is_red (left_child t') \<and> is_red (right_child t'))"
        using n by (cases t' rule: is_red.cases) auto
      with n no_red_red_children [OF n] show ?thesis by simp
    qed
  next
    case False
    with Node.prems obtain r' where r': "insert_unique value_comp v r = Some r'"
      and t': "t' = balance_after_insert_right c l k r'" by (auto split: if_splits)
    note ih = Node.IH(2) [OF nr r']
    show ?thesis
    proof (cases c)
      case Red
      with Node.prems(1) have "\<not> is_red l" "\<not> is_red r" by simp_all
      with ih have "no_red_red r'" by simp
      then have "\<not> (is_red r' \<and> (is_red (left_child r') \<or> is_red (right_child r')))"
        by (cases r' rule: is_red.cases) auto
      then have "t' = Node Red l k r'" by (auto simp: t' balance_after_insert_right_def Red)
      with \<open>no_red_red r'\<close> nl \<open>\<not> is_red l\<close> Red show ?thesis by simp
    next
      case Black
      with ih nl have n: "no_red_red t'"
        unfolding t' by (intro balance_right_no_red_red) simp_all
      have "is_red t' \<longrightarrow> \<not> (is_red (left_child t') \<and> is_red (right_child t'))"
        using n by (cases t' rule: is_red.cases) auto
      with n no_red_red_children [OF n] show ?thesis by simp
    qed
  qed
qed

lemma set_insert_no_red_red:
  assumes "no_red_red t" "\<not> is_red t"
  shows "no_red_red (set_insert value_comp v t) \<and> \<not> is_red (set_insert value_comp v t)"
proof (cases "insert_unique value_comp v t")
  case None
  with assms show ?thesis by (simp add: set_insert_def)
next
  case (Some t')
  from insert_unique_no_red_red [OF assms(1) Some] show ?thesis
    by (simp add: set_insert_def Some no_red_red_paint)
qed

text \<open>
  The set that the first loop builds is a tree with a black root in which no red node has
  a red child, whatever the comparator.
\<close>

lemma foldl_set_insert_no_red_red:
  "no_red_red t \<Longrightarrow> \<not> is_red t \<Longrightarrow>
     no_red_red (foldl (\<lambda>s a. set_insert value_comp a s) t xs) \<and>
     \<not> is_red (foldl (\<lambda>s a. set_insert value_comp a s) t xs)"
  by (induction xs arbitrary: t) (simp_all add: set_insert_no_red_red)

lemma collect_file_refs_no_red_red:
  "no_red_red (collect_file_refs heap table) \<and> \<not> is_red (collect_file_refs heap table)"
  unfolding collect_file_refs_flat by (rule foldl_set_insert_no_red_red) simp_all

lemma set_iterate_Nil: "set_iterate t = [] \<longleftrightarrow> t = Leaf"
  by (cases t) simp_all

lemma right_child_balance_left:
  "r \<noteq> Leaf \<Longrightarrow> right_child (balance_after_insert_left c l' k r) \<noteq> Leaf"
proof (cases "is_red l' \<and> (is_red (left_child l') \<or> is_red (right_child l'))")
  case False
  then show "r \<noteq> Leaf \<Longrightarrow> ?thesis" by (auto simp: balance_after_insert_left_def)
next
  case True
  then obtain a x b where l': "l' = Node Red a x b" by (auto simp: is_red_Node)
  assume r: "r \<noteq> Leaf"
  show ?thesis
  proof (cases "is_red r")
    case True
    with r l' \<open>is_red l' \<and> _\<close> show ?thesis
      by (cases r) (auto simp: balance_after_insert_left_def)
  next
    case False
    show ?thesis
    proof (cases "is_red b")
      case True
      then obtain b1 y b2 where "b = Node Red b1 y b2" by (auto simp: is_red_Node)
      with False l' show ?thesis by (simp add: balance_after_insert_left_def)
    next
      case b: False
      with False l' \<open>is_red l' \<and> _\<close> show ?thesis by (simp add: balance_after_insert_left_def)
    qed
  qed
qed

lemma insert_unique_path_right_child:
  assumes "right_child t \<noteq> Leaf" and "insert_unique (PathComparator heap) v t = Some t'"
  shows "right_child t' \<noteq> Leaf"
proof -
  from assms(1) obtain c l k r where t: "t = Node c l k r" and r: "r \<noteq> Leaf"
    by (cases t) auto
  from assms(2) obtain l' where "t' = balance_after_insert_left c l' k r"
    unfolding t by (auto simp only: insert_unique_path_Node split: if_splits)
  with right_child_balance_left [OF r] show ?thesis by simp
qed

lemma set_insert_path_right_child:
  "right_child t \<noteq> Leaf \<Longrightarrow> right_child (set_insert (PathComparator heap) v t) \<noteq> Leaf"
proof (cases "insert_unique (PathComparator heap) v t")
  case None
  then show "right_child t \<noteq> Leaf \<Longrightarrow> ?thesis" by (simp add: set_insert_def)
next
  case (Some t')
  assume "right_child t \<noteq> Leaf"
  from insert_unique_path_right_child [OF this Some] show ?thesis
    by (cases t') (simp_all add: set_insert_def Some)
qed

lemma foldl_set_insert_right_child:
  "right_child t \<noteq> Leaf \<Longrightarrow>
     right_child (foldl (\<lambda>s a. set_insert (PathComparator heap) a s) t as) \<noteq> Leaf"
  by (induction as arbitrary: t) (simp_all add: set_insert_path_right_child)

lemma three_paths_tree:
  assumes "heap a \<noteq> heap b" "heap a \<noteq> heap c" "heap b \<noteq> heap c"
  shows "foldl (\<lambda>s a. set_insert (PathComparator heap) a s) Leaf [a, b, c] =
    Node Black (Node Red Leaf c Leaf) b (Node Red Leaf a Leaf)"
  using assms
  by (simp add: set_insert_def PathComparator_def compare_eq_0 balance_after_insert_left_def)

lemma insert_unique_path_last:
  assumes "right_child t \<noteq> Leaf" and "distinct (map heap (set_iterate t))"
    and "heap v = heap (last (set_iterate t))"
  shows "insert_unique (PathComparator heap) v t \<noteq> None"
proof -
  from assms(1) obtain c l k r where t: "t = Node c l k r" and r: "r \<noteq> Leaf"
    by (cases t) auto
  from r have ne: "set_iterate r \<noteq> []" by (simp add: set_iterate_Nil)
  then have "last (set_iterate t) = last (set_iterate r)" by (simp add: t)
  with ne have "last (set_iterate t) \<in> set (set_iterate r)" by simp
  with assms(3) have m: "heap v \<in> heap ` set (set_iterate r)" by simp
  from assms(2) have nk: "heap k \<notin> heap ` set (set_iterate r)"
    and dj: "heap ` set (set_iterate l) \<inter> heap ` set (set_iterate r) = {}"
    unfolding t by auto
  from m nk have "heap v \<noteq> heap k" by metis
  moreover have "\<forall>x \<in> set (set_iterate l). heap x \<noteq> heap v"
  proof
    fix x
    assume "x \<in> set (set_iterate l)"
    then have "heap x \<in> heap ` set (set_iterate l)" by (rule imageI)
    with dj m show "heap x \<noteq> heap v" by (metis disjoint_iff)
  qed
  ultimately have "heap v \<noteq> heap k" and "\<forall>x \<in> set (set_iterate l). heap x \<noteq> heap v"
    by simp_all
  with insert_unique_path_new [of l heap v] show ?thesis
    unfolding t by (simp only: insert_unique_path_Node) simp
qed

text \<open>
  At least three references with different paths, and then one more with the path of the
  first: the set takes it as well.
\<close>

lemma foldl_set_insert_repeated_first:
  assumes "distinct (map heap (a # b # c # as))" and "heap v = heap a"
  shows "set_iterate (foldl (\<lambda>s a. set_insert (PathComparator heap) a s) Leaf
           (a # b # c # as @ [v])) = v # rev (a # b # c # as)"
proof -
  let ?ins = "\<lambda>s a. set_insert (PathComparator heap) a s"
  define t3 where "t3 = foldl ?ins Leaf [a, b, c]"
  define t where "t = foldl ?ins t3 as"
  from assms(1) have t3: "t3 = Node Black (Node Red Leaf c Leaf) b (Node Red Leaf a Leaf)"
    unfolding t3_def by (intro three_paths_tree) auto
  then have "right_child t3 \<noteq> Leaf" by simp
  then have rc: "right_child t \<noteq> Leaf" unfolding t_def by (rule foldl_set_insert_right_child)
  from assms(1) have "distinct (map heap (set_iterate t3 @ as))" by (auto simp: t3)
  from foldl_set_insert_path_new [OF this]
  have it: "set_iterate t = rev (a # b # c # as)" by (simp add: t_def t3)
  with assms(1) have d: "distinct (map heap (set_iterate t))"
    by (simp only: distinct_map set_rev distinct_rev inj_on_def) auto
  from it assms(2) have "heap v = heap (last (set_iterate t))" by simp
  from insert_unique_path_last [OF rc d this] obtain t' where
    t': "insert_unique (PathComparator heap) v t = Some t'" by auto
  from insert_unique_path_front [OF t'] have "set_iterate (set_insert (PathComparator heap) v t) =
      v # set_iterate t" by (simp add: set_insert_def t')
  moreover have "foldl ?ins Leaf (a # b # c # as @ [v]) = set_insert (PathComparator heap) v t"
    by (simp add: t_def t3_def)
  ultimately show ?thesis by (simp only: it)
qed

text \<open>References that all have one path: the set keeps the first of them only.\<close>

lemma foldl_set_insert_one_path:
  "\<forall>x \<in> set as. heap x = heap a \<Longrightarrow>
     foldl (\<lambda>s a. set_insert (PathComparator heap) a s) (Node Black Leaf a Leaf) as =
       Node Black Leaf a Leaf"
  by (induction as) (simp_all add: set_insert_def PathComparator_def compare_eq_0)

lemma foldl_set_insert_repeated_first_upt:
  assumes "3 \<le> n" and "inj_on heap {0..<n}" and "heap n = heap 0"
  shows "set_iterate (foldl (\<lambda>s a. set_insert (PathComparator heap) a s) Leaf [0..<Suc n]) =
    rev [0..<Suc n]"
proof -
  from assms(1) have u: "[0..<n] = 0 # Suc 0 # Suc (Suc 0) # [Suc (Suc (Suc 0))..<n]"
    by (simp add: upt_conv_Cons)
  from assms(2) have "distinct (map heap [0..<n])" by (simp add: distinct_map)
  then have d: "distinct (map heap (0 # Suc 0 # Suc (Suc 0) # [Suc (Suc (Suc 0))..<n]))"
    by (simp only: u)
  have s: "[0..<Suc n] = 0 # Suc 0 # Suc (Suc 0) # [Suc (Suc (Suc 0))..<n] @ [n]"
    using u by simp
  from foldl_set_insert_repeated_first [OF d assms(3)] show ?thesis
    unfolding s by simp
qed

lemma foldl_set_insert_one_path_upt:
  assumes "\<forall>x. heap x = heap 0"
  shows "foldl (\<lambda>s a. set_insert (PathComparator heap) a s) Leaf [0..<Suc n] =
    Node Black Leaf 0 Leaf"
proof -
  have u: "[0..<Suc n] = 0 # [Suc 0..<Suc n]" by (simp add: upt_conv_Cons)
  have f: "set_insert (PathComparator heap) 0 Leaf = Node Black Leaf 0 Leaf"
    by (simp add: set_insert_def)
  from assms have "\<forall>x \<in> set [Suc 0..<Suc n]. heap x = heap 0" by simp
  from foldl_set_insert_one_path [OF this] show ?thesis
    unfolding u by (simp only: foldl.simps f)
qed

lemma set_insert_paths:
  "heap ` set (set_iterate (set_insert (PathComparator heap) a t)) =
     insert (heap a) (heap ` set (set_iterate t))"
proof (cases "\<forall>k \<in> set (set_iterate t). heap k \<noteq> heap a")
  case True
  from set_insert_path_new [OF this] show ?thesis by simp
next
  case False
  then obtain k where "k \<in> set (set_iterate t)" and "heap k = heap a" by auto
  then have "heap a \<in> heap ` set (set_iterate t)" by (metis imageI)
  with set_insert_path [of heap a t] show ?thesis by auto
qed

text \<open>The paths of the collected references are the paths of all references.\<close>

lemma foldl_set_insert_paths:
  "heap ` set (set_iterate (foldl (\<lambda>s a. set_insert (PathComparator heap) a s) t as)) =
     heap ` (set (set_iterate t) \<union> set as)"
proof (induction as arbitrary: t)
  case Nil
  show ?case by simp
next
  case (Cons a as)
  show ?case by (simp add: Cons.IH set_insert_paths image_Un)
qed

lemma file_refs_order_paths:
  "heap ` set (file_refs_order heap table) = heap ` set (table_file_refs table)"
  using foldl_set_insert_paths [of heap Leaf "table_file_refs table"]
  by (simp add: file_refs_order_def collect_file_refs_flat)

lemma set_size_bounds:
  assumes "distinct (table_file_refs table)"
  shows "card (heap ` set (table_file_refs table)) \<le> set_size (collect_file_refs heap table)"
    and "set_size (collect_file_refs heap table) \<le> length (table_file_refs table)"
proof -
  let ?order = "file_refs_order heap table"
  have n: "set_size (collect_file_refs heap table) = length ?order"
    by (simp add: set_size_def file_refs_order_def)
  from file_refs_order_distinct [OF assms, of heap]
  have d: "distinct ?order" and s: "set ?order \<subseteq> set (table_file_refs table)" .
  have "card (heap ` set ?order) \<le> card (set ?order)" by (rule card_image_le) simp
  also have "\<dots> \<le> length ?order" by (rule card_length)
  finally show "card (heap ` set (table_file_refs table)) \<le> set_size (collect_file_refs heap table)"
    by (simp only: n file_refs_order_paths)
  from d have "length ?order = card (set ?order)" by (simp add: distinct_card)
  also from s have "\<dots> \<le> card (set (table_file_refs table))" by (intro card_mono) simp_all
  also have "\<dots> \<le> length (table_file_refs table)" by (rule card_length)
  finally show "set_size (collect_file_refs heap table) \<le> length (table_file_refs table)"
    by (simp only: n)
qed

section \<open>The alias\<close>

lemma ShortenFileName_loop_eq:
  "ShortenFileName_loop n h r =
     r @ map (\<lambda>i. base64_chars ! unat (drop_bit (6 * i) h AND 0x3f)) [0..<n]"
proof (induction n arbitrary: h r)
  case 0
  show ?case by simp
next
  case (Suc n)
  have "map (\<lambda>i. base64_chars ! unat (drop_bit (6 * i) h AND 0x3f)) [0..<Suc n] =
      base64_chars ! unat (h AND 0x3f) #
      map (\<lambda>i. base64_chars ! unat (drop_bit (6 * i) (drop_bit 6 h) AND 0x3f)) [0..<n]"
    by (simp add: upt_conv_Cons map_Suc_upt [symmetric] drop_bit_drop_bit add.commute
        del: upt_Suc)
  then show ?case by (simp add: Suc.IH Let_def del: upt_Suc)
qed

lemma ShortenFileName_length: "length (ShortenFileName hash file_path n) = nat n"
  by (simp add: ShortenFileName_def ShortenFileName_loop_eq)

lemma sextet_bound: "unat ((h :: 64 word) AND 0x3f) < 64"
proof -
  have "unat (h AND 0x3f) \<le> unat (0x3f :: 64 word)"
    by (rule word_and_le1 [THEN word_le_nat_alt [THEN iffD1]])
  then show ?thesis by simp
qed

lemma base64_chars_alphabet:
  "base64_chars =
     map (\<lambda>k. char_of (65 + k)) [0..<26] @ map (\<lambda>k. char_of (97 + k)) [0..<26] @
     map (\<lambda>k. char_of (48 + k)) [0..<10] @ [CHR ''-'', CHR ''_'']"
  by code_simp

text \<open>
  C3, as the code has it. The alias is computed from the value of \<^verbatim>\<open>std::hash\<close> on the
  full path, whatever function the C++ library supplies for it (the parameter \<open>hash\<close>):
  symbol \<open>i\<close> is the alphabet's entry for the \<open>i\<close>-th group of six bits of the hash,
  counted from the least significant end. The alphabet is \<^verbatim>\<open>A\<close> to \<^verbatim>\<open>Z\<close> (codes from
  65), \<^verbatim>\<open>a\<close> to \<^verbatim>\<open>z\<close> (from 97), \<^verbatim>\<open>0\<close> to \<^verbatim>\<open>9\<close> (from 48), \<^verbatim>\<open>-\<close> and \<^verbatim>\<open>_\<close>: 64 different
  symbols. The alias has \<^verbatim>\<open>output_length\<close> symbols when that is not negative, and none
  otherwise.
\<close>

theorem ShortenFileName_sextets:
  "ShortenFileName hash file_path output_length =
     map (\<lambda>i. base64_chars ! unat (drop_bit (6 * i) (hash file_path) AND 0x3f))
       [0..<nat output_length]
   \<and> length (ShortenFileName hash file_path output_length) = nat output_length
   \<and> unat (drop_bit (6 * i) (hash file_path) AND 0x3f) < length base64_chars
   \<and> length base64_chars = 64 \<and> distinct base64_chars
   \<and> base64_chars =
       map (\<lambda>k. char_of (65 + k)) [0..<26] @ map (\<lambda>k. char_of (97 + k)) [0..<26] @
       map (\<lambda>k. char_of (48 + k)) [0..<10] @ [CHR ''-'', CHR ''_'']"
proof (intro conjI)
  show "ShortenFileName hash file_path output_length =
     map (\<lambda>i. base64_chars ! unat (drop_bit (6 * i) (hash file_path) AND 0x3f))
       [0..<nat output_length]"
    by (simp add: ShortenFileName_def ShortenFileName_loop_eq)
  show "length (ShortenFileName hash file_path output_length) = nat output_length"
    by (rule ShortenFileName_length)
  show "length base64_chars = 64" "distinct base64_chars"
    by (simp_all add: base64_chars_def)
  then show "unat (drop_bit (6 * i) (hash file_path) AND 0x3f) < length base64_chars"
    using sextet_bound [of "drop_bit (6 * i) (hash file_path)"] by simp
  show "base64_chars =
       map (\<lambda>k. char_of (65 + k)) [0..<26] @ map (\<lambda>k. char_of (97 + k)) [0..<26] @
       map (\<lambda>k. char_of (48 + k)) [0..<10] @ [CHR ''-'', CHR ''_'']"
    by (rule base64_chars_alphabet)
qed

theorem ShortenFileName_sextets_witness:
  "ShortenFileName (fnv1a_64 0xcbf29ce484222325) ''res/drawable/foo.png'' 3 = ''ijf''
   \<and> length (ShortenFileName (fnv1a_64 0xcbf29ce484222325) ''res/drawable/foo.png'' 3) = 3"
proof -
  note t = ShortenFileName_sextets [of "fnv1a_64 0xcbf29ce484222325"
      "''res/drawable/foo.png''" 3 0]
  from t have a: "ShortenFileName (fnv1a_64 0xcbf29ce484222325) ''res/drawable/foo.png'' 3 =
     map (\<lambda>i. base64_chars !
            unat (drop_bit (6 * i) (fnv1a_64 0xcbf29ce484222325 ''res/drawable/foo.png'')
                  AND 0x3f)) [0..<nat 3]"
    by (rule conjunct1)
  have b: "map (\<lambda>i. base64_chars !
            unat (drop_bit (6 * i) (fnv1a_64 0xcbf29ce484222325 ''res/drawable/foo.png'')
                  AND 0x3f)) [0..<nat 3] = ''ijf''"
    by code_simp
  from a b have 1:
    "ShortenFileName (fnv1a_64 0xcbf29ce484222325) ''res/drawable/foo.png'' 3 = ''ijf''"
    by (rule trans)
  then show ?thesis by simp
qed

text \<open>
  C3 as the spec states it fails. No hash is chosen in the code: the alias of one path
  differs between two implementations of \<^verbatim>\<open>std::hash\<close> (FNV-1a from two offset bases).
  And a negative length gives no symbol.
\<close>

theorem ShortenFileName_ambient_hash_counterexample:
  "ShortenFileName (fnv1a_64 0xcbf29ce484222325) ''res/drawable/foo.png'' 2 = ''ij''
   \<and> ShortenFileName (fnv1a_64 0) ''res/drawable/foo.png'' 2 = ''bO''
   \<and> int (length (ShortenFileName (fnv1a_64 0) ''res/drawable/foo.png'' (- 1))) \<noteq> - 1"
proof -
  have "ShortenFileName (fnv1a_64 0xcbf29ce484222325) ''res/drawable/foo.png'' 2 = ''ij''"
    by code_simp
  moreover have "ShortenFileName (fnv1a_64 0) ''res/drawable/foo.png'' 2 = ''bO''"
    by code_simp
  ultimately show ?thesis by simp
qed

section \<open>Candidates\<close>

lemma to_string_nat_digits: "set (to_string_nat n) \<subseteq> set digit_chars"
proof (induction n rule: to_string_nat.induct)
  case (1 n)
  have "length digit_chars = 10" by (simp add: digit_chars_def)
  then have d: "\<And>k. k < 10 \<Longrightarrow> digit_chars ! k \<in> set digit_chars"
    by (simp add: nth_mem)
  show ?case
  proof (cases "n < 10")
    case True
    then show ?thesis by (simp add: to_string_nat.simps [of n] d)
  next
    case False
    with "1.IH" show ?thesis by (simp add: to_string_nat.simps [of n] d)
  qed
qed

lemma GetShortenedPath_eq:
  "GetShortenedPath fn ext c = ''res/'' @ fn @ (if c > 0 then to_string c else []) @ ext"
  by (simp add: GetShortenedPath_def)

lemma digits_split:
  assumes "set xs \<subseteq> D" "set ys \<subseteq> D" "e = [] \<or> hd e \<notin> D" "e' = [] \<or> hd e' \<notin> D"
    and "xs @ e = ys @ e'"
  shows "xs = ys \<and> e = e'"
proof -
  have a: "takeWhile (\<lambda>c. c \<in> D) (xs @ e) = xs"
    using assms(1,3) by (subst takeWhile_append2) (auto simp: takeWhile_eq_Nil_iff)
  have b: "takeWhile (\<lambda>c. c \<in> D) (ys @ e') = ys"
    using assms(2,4) by (subst takeWhile_append2) (auto simp: takeWhile_eq_Nil_iff)
  from a b assms(5) have "xs = ys" by simp
  with assms(5) show ?thesis by simp
qed

lemma GetShortenedPath_inj:
  assumes "GetShortenedPath f e (int c) = GetShortenedPath f' e' (int c')"
    and "length f = length f'" "\<not> starts_with_digit e" "\<not> starts_with_digit e'"
  shows "f = f' \<and> e = e' \<and> c = c'"
proof -
  let ?s = "\<lambda>c. if int c > 0 then to_string (int c) else []"
  from assms(1,2) have f: "f = f'" and r: "?s c @ e = ?s c' @ e'"
    by (simp_all add: GetShortenedPath_eq)
  have s: "set (?s c) \<subseteq> set digit_chars" for c
    by (cases "int c > 0") (simp_all add: to_string_def to_string_nat_digits)
  have e: "e = [] \<or> hd e \<notin> set digit_chars" "e' = [] \<or> hd e' \<notin> set digit_chars"
    using assms(3,4) by (auto simp: starts_with_digit_def split: list.splits)
  from digits_split [OF s s e r] have ss: "?s c = ?s c'" and ee: "e = e'" by simp_all
  have "c = c'"
  proof (cases "c = 0")
    case True
    with ss to_string_nat_nonempty [of c'] show ?thesis
      by (cases "c' = 0") (simp_all add: to_string_def)
  next
    case False
    with ss to_string_nat_nonempty [of c] have "c' \<noteq> 0"
      by (cases "c' = 0") (simp_all add: to_string_def)
    with False ss have "to_string_nat c = to_string_nat c'" by (simp add: to_string_def)
    then show ?thesis by (rule to_string_nat_inj)
  qed
  with f ee show ?thesis by simp
qed

lemma unique_shortened_path_free:
  "unique_shortened_path f e seen c \<notin> set seen"
  by (induction f e seen c rule: unique_shortened_path.induct)
     (subst unique_shortened_path.simps, simp)

lemma unique_shortened_path_form:
  "0 \<le> c \<Longrightarrow> \<exists>k. unique_shortened_path f e seen c = GetShortenedPath f e (int k)"
proof (induction f e seen c rule: unique_shortened_path.induct)
  case (1 f e seen c)
  show ?case
  proof (cases "GetShortenedPath f e c \<in> set seen")
    case True
    with 1 show ?thesis by (subst unique_shortened_path.simps) simp
  next
    case False
    from "1.prems" have c: "c = int (nat c)" by simp
    from False have "unique_shortened_path f e seen c = GetShortenedPath f e c"
      by (subst unique_shortened_path.simps) simp
    with c show ?thesis by metis
  qed
qed

lemma unique_shortened_path_first:
  assumes "\<forall>j. c \<le> j \<and> j < K \<longrightarrow> GetShortenedPath f e j \<in> set seen"
    and "GetShortenedPath f e K \<notin> set seen" "c \<le> K"
  shows "unique_shortened_path f e seen c = GetShortenedPath f e K"
  using assms
proof (induction "nat (K - c)" arbitrary: c)
  case 0
  then have "c = K" by simp
  with 0 show ?case by (subst unique_shortened_path.simps) simp
next
  case (Suc d)
  then have lt: "c < K" by simp
  with Suc.prems have hit: "GetShortenedPath f e c \<in> set seen" by simp
  have "unique_shortened_path f e seen (c + 1) = GetShortenedPath f e K"
  proof (rule Suc.hyps(1))
    show "d = nat (K - (c + 1))" using Suc.hyps(2) by simp
    show "\<forall>j. c + 1 \<le> j \<and> j < K \<longrightarrow> GetShortenedPath f e j \<in> set seen"
      using Suc.prems(1) by simp
    show "GetShortenedPath f e K \<notin> set seen" by fact
    show "c + 1 \<le> K" using lt by simp
  qed
  with hit show ?case by (subst unique_shortened_path.simps) simp
qed

section \<open>The second loop\<close>

lemma shorten_paths_length [simp]:
  "length (shorten_paths hash extract n seen ps) = length ps"
  by (induction ps arbitrary: seen) (simp_all add: Let_def)

lemma shorten_paths_color:
  "i < length ps \<Longrightarrow> under_color extract (ps ! i) \<Longrightarrow>
     shorten_paths hash extract n seen ps ! i = ps ! i"
proof (induction ps arbitrary: seen i)
  case Nil
  then show ?case by simp
next
  case (Cons p ps)
  show ?case
  proof (cases i)
    case 0
    with Cons.prems show ?thesis by simp
  next
    case (Suc j)
    with Cons.prems Cons.IH [of j] show ?thesis by (simp add: Let_def)
  qed
qed

lemma shorten_paths_form:
  "i < length ps \<Longrightarrow> \<not> under_color extract (ps ! i) \<Longrightarrow>
     \<exists>k. shorten_paths hash extract n seen ps ! i =
       GetShortenedPath (ShortenFileName hash (ps ! i) n) (extension_of extract (ps ! i)) (int k)"
proof (induction ps arbitrary: seen i)
  case Nil
  then show ?case by simp
next
  case (Cons p ps)
  show ?case
  proof (cases i)
    case 0
    with Cons.prems
      unique_shortened_path_form [of 0 "ShortenFileName hash p n" "extension_of extract p" seen]
    show ?thesis by (simp add: Let_def)
  next
    case (Suc j)
    with Cons.prems Cons.IH [of j] show ?thesis by (simp add: Let_def)
  qed
qed

text \<open>The pairs of old and new path of the paths that were shortened.\<close>

lemma shorten_paths_fresh:
  "distinct (map snd (filter (\<lambda>(p, q). \<not> under_color extract p)
       (zip ps (shorten_paths hash extract n seen ps)))) \<and>
   snd ` set (filter (\<lambda>(p, q). \<not> under_color extract p)
       (zip ps (shorten_paths hash extract n seen ps))) \<inter> set seen = {}"
proof (induction ps arbitrary: seen)
  case Nil
  show ?case by simp
next
  case (Cons p ps)
  show ?case
  proof (cases "under_color extract p")
    case True
    with Cons.IH [of seen] show ?thesis by simp
  next
    case False
    let ?q = "unique_shortened_path (ShortenFileName hash p n) (extension_of extract p) seen 0"
    have q: "?q \<notin> set seen" by (rule unique_shortened_path_free)
    from Cons.IH [of "?q # seen"] q False show ?thesis by (auto simp: Let_def)
  qed
qed

lemma shorten_file_ref_eq:
  "shorten_file_ref hash extract n a (seen, m, heap) =
     (if under_color extract (heap a) then (seen, m, heap)
      else
        (unique_shortened_path (ShortenFileName hash (heap a) n)
           (extension_of extract (heap a)) seen 0 # seen,
         map_insert (heap a)
           (unique_shortened_path (ShortenFileName hash (heap a) n)
              (extension_of extract (heap a)) seen 0) m,
         heap(a := unique_shortened_path (ShortenFileName hash (heap a) n)
           (extension_of extract (heap a)) seen 0)))"
proof -
  obtain d f e where "extract (heap a) = (d, f, e)" by (cases "extract (heap a)")
  then show ?thesis
    by (simp add: shorten_file_ref_def under_color_def extension_of_def Let_def)
qed

lemma foldl_shorten_file_ref:
  assumes "distinct refs"
  shows "map (snd (snd (foldl (\<lambda>st a. shorten_file_ref hash extract n a st) (seen, m, heap) refs)))
           refs = shorten_paths hash extract n seen (map heap refs)
    \<and> (\<forall>a. a \<notin> set refs \<longrightarrow>
          snd (snd (foldl (\<lambda>st a. shorten_file_ref hash extract n a st) (seen, m, heap) refs)) a
            = heap a)
    \<and> fst (snd (foldl (\<lambda>st a. shorten_file_ref hash extract n a st) (seen, m, heap) refs)) =
        map_of (filter (\<lambda>(p, q). \<not> under_color extract p)
          (zip (map heap refs) (shorten_paths hash extract n seen (map heap refs)))) ++ m"
  using assms
proof (induction refs arbitrary: seen m heap)
  case Nil
  show ?case by simp
next
  case (Cons a refs)
  from Cons.prems have a: "a \<notin> set refs" and d: "distinct refs" by simp_all
  show ?case
  proof (cases "under_color extract (heap a)")
    case True
    then have s: "shorten_file_ref hash extract n a (seen, m, heap) = (seen, m, heap)"
      by (simp add: shorten_file_ref_eq)
    from Cons.IH [OF d, of seen m heap] a True show ?thesis
      by (simp add: s)
  next
    case False
    define q where "q = unique_shortened_path (ShortenFileName hash (heap a) n)
       (extension_of extract (heap a)) seen 0"
    define R where "R = foldl (\<lambda>st a. shorten_file_ref hash extract n a st)
       (q # seen, map_insert (heap a) q m, heap(a := q)) refs"
    define qs where "qs = shorten_paths hash extract n (q # seen) (map heap refs)"
    from False
    have s: "shorten_file_ref hash extract n a (seen, m, heap) =
        (q # seen, map_insert (heap a) q m, heap(a := q))"
      by (simp add: shorten_file_ref_eq q_def)
    then have f: "foldl (\<lambda>st a. shorten_file_ref hash extract n a st) (seen, m, heap) (a # refs)
        = R" by (simp add: R_def)
    from False have sp: "shorten_paths hash extract n seen (map heap (a # refs)) = q # qs"
      by (simp add: q_def qs_def Let_def)
    from a have h: "map (heap(a := q)) refs = map heap refs" by auto
    note ih = Cons.IH [OF d, of "q # seen" "map_insert (heap a) q m" "heap(a := q)",
        folded R_def, unfolded h, folded qs_def]
    from ih have 1: "map (snd (snd R)) refs = qs"
      and 2: "\<forall>b. b \<notin> set refs \<longrightarrow> snd (snd R) b = (heap(a := q)) b"
      and 3: "fst (snd R) = map_of (filter (\<lambda>(p, q). \<not> under_color extract p)
          (zip (map heap refs) qs)) ++ map_insert (heap a) q m"
      by blast+
    from 2 a have ra: "snd (snd R) a = q" by simp
    have g1: "map (snd (snd R)) (a # refs) = q # qs" using 1 ra by simp
    have g2: "\<forall>b. b \<notin> set (a # refs) \<longrightarrow> snd (snd R) b = heap b" using 2 by simp
    have mm: "\<And>kvs. map_of kvs ++ map_insert (heap a) q m = map_of ((heap a, q) # kvs) ++ m"
      by (rule ext) (auto simp: map_add_def map_insert_def split: option.splits)
    have z: "filter (\<lambda>(p, q). \<not> under_color extract p) (zip (map heap (a # refs)) (q # qs))
        = (heap a, q) # filter (\<lambda>(p, q). \<not> under_color extract p) (zip (map heap refs) qs)"
      using False by simp
    have g3: "fst (snd R) = map_of (filter (\<lambda>(p, q). \<not> under_color extract p)
          (zip (map heap (a # refs)) (q # qs))) ++ m"
      unfolding z 3 by (rule mm)
    from g1 g2 g3 show ?thesis unfolding f sp by blast
  qed
qed

lemma shorten_paths_count:
  assumes "set seen = {GetShortenedPath f e (int c) | f e c. c < count_list K (f, e)}"
    and "\<forall>(f, e) \<in> set K. length f = nat n \<and> \<not> starts_with_digit e"
    and nd: "\<forall>p. \<not> starts_with_digit (extension_of extract p)"
    and "i < length ps" "\<not> under_color extract (ps ! i)"
  shows "shorten_paths hash extract n seen ps ! i =
     GetShortenedPath (ShortenFileName hash (ps ! i) n) (extension_of extract (ps ! i))
       (int (count_list
          (K @ map (\<lambda>p. (ShortenFileName hash p n, extension_of extract p))
                 (filter (\<lambda>p. \<not> under_color extract p) (take i ps)))
          (ShortenFileName hash (ps ! i) n, extension_of extract (ps ! i))))"
  using assms(1,2,4,5)
proof (induction ps arbitrary: seen K i)
  case Nil
  then show ?case by simp
next
  case (Cons p ps)
  show ?case
  proof (cases "under_color extract p")
    case True
    with Cons.prems obtain j where j: "i = Suc j" by (cases i) auto
    with Cons.prems have "j < length ps" "\<not> under_color extract (ps ! j)" by simp_all
    from Cons.IH [OF Cons.prems(1,2) this] True show ?thesis by (simp add: j)
  next
    case False
    define f0 where "f0 = ShortenFileName hash p n"
    define e0 where "e0 = extension_of extract p"
    define q where "q = unique_shortened_path f0 e0 seen 0"
    have lf0: "length f0 = nat n" by (simp add: f0_def ShortenFileName_length)
    have ne0: "\<not> starts_with_digit e0" using nd by (simp add: e0_def)
    have below: "\<forall>j. 0 \<le> j \<and> j < int (count_list K (f0, e0)) \<longrightarrow>
        GetShortenedPath f0 e0 j \<in> set seen"
    proof (intro allI impI)
      fix j :: int
      assume j: "0 \<le> j \<and> j < int (count_list K (f0, e0))"
      define c where "c = nat j"
      from j have c: "c < count_list K (f0, e0)" and jc: "j = int c"
        unfolding c_def by linarith+
      from c show "GetShortenedPath f0 e0 j \<in> set seen"
        unfolding Cons.prems(1) jc by blast
    qed
    have free: "GetShortenedPath f0 e0 (int (count_list K (f0, e0))) \<notin> set seen"
    proof
      assume "GetShortenedPath f0 e0 (int (count_list K (f0, e0))) \<in> set seen"
      then obtain f e c where eq: "GetShortenedPath f0 e0 (int (count_list K (f0, e0))) =
          GetShortenedPath f e (int c)" and c: "c < count_list K (f, e)"
        unfolding Cons.prems(1) by blast
      from c have "(f, e) \<in> set K" by (metis count_list_0_iff not_less_zero)
      with Cons.prems(2) have "length f = nat n" "\<not> starts_with_digit e" by auto
      with lf0 ne0 have "length f0 = length f" "\<not> starts_with_digit e0"
        "\<not> starts_with_digit e" by simp_all
      from GetShortenedPath_inj [OF eq this]
      have "count_list K (f, e) = c" by auto
      with c show False by simp
    qed
    have q: "q = GetShortenedPath f0 e0 (int (count_list K (f0, e0)))"
      unfolding q_def by (rule unique_shortened_path_first [OF below free]) simp
    have sp: "shorten_paths hash extract n seen (p # ps) =
        q # shorten_paths hash extract n (q # seen) ps"
      using False by (simp add: q_def f0_def e0_def Let_def)
    show ?thesis
    proof (cases i)
      case 0
      show ?thesis unfolding sp 0 by (simp add: q f0_def e0_def)
    next
      case (Suc j)
      with Cons.prems have j: "j < length ps" "\<not> under_color extract (ps ! j)" by simp_all
      have inv: "set (q # seen) =
          {GetShortenedPath f e (int c) | f e c. c < count_list (K @ [(f0, e0)]) (f, e)}"
      proof -
        have "{GetShortenedPath f e (int c) | f e c. c < count_list (K @ [(f0, e0)]) (f, e)} =
            insert q {GetShortenedPath f e (int c) | f e c. c < count_list K (f, e)}"
          unfolding q by (auto simp: less_Suc_eq)
        then show ?thesis unfolding Cons.prems(1) [symmetric] by simp
      qed
      have K': "\<forall>(f, e) \<in> set (K @ [(f0, e0)]). length f = nat n \<and> \<not> starts_with_digit e"
        using Cons.prems(2) lf0 ne0 by auto
      from Cons.IH [OF inv K' j] False show ?thesis
        unfolding sp Suc by (simp add: f0_def e0_def)
    qed
  qed
qed

section \<open>The path pass\<close>

text \<open>A size below \<open>2 ^ 31\<close> is converted to itself, and \<open>2 ^ 31\<close> to the least \<^verbatim>\<open>int\<close>.\<close>

lemma size_to_int_small: "n < 2 ^ 31 \<Longrightarrow> size_to_int n = int n"
  unfolding size_to_int_def
  by (simp add: signed_of_nat signed_take_bit_int_eq_self)

lemma size_to_int_wraps: "size_to_int (2 ^ 31) = - (2 ^ 31)"
  unfolding size_to_int_def by simp

lemma HandleShortenFilePaths_eq:
  "HandleShortenFilePaths hash extract table heap m =
     (True,
      snd (snd (foldl (\<lambda>st a. shorten_file_ref hash extract
          (OptimalShortenedLength (size_to_int (length (file_refs_order heap table)))) a st)
        ([], m, heap) (file_refs_order heap table))),
      fst (snd (foldl (\<lambda>st a. shorten_file_ref hash extract
          (OptimalShortenedLength (size_to_int (length (file_refs_order heap table)))) a st)
        ([], m, heap) (file_refs_order heap table))))"
  by (simp add: HandleShortenFilePaths_def Let_def file_refs_order_def set_size_def
      split: prod.splits)

lemma foldl_shorten_file_ref_color:
  "(\<forall>a. under_color extract (heap a) \<longrightarrow>
      snd (snd (foldl (\<lambda>st a. shorten_file_ref hash extract n a st) (seen, m, heap) refs)) a
        = heap a)
   \<and> (\<forall>p. under_color extract p \<longrightarrow>
      fst (snd (foldl (\<lambda>st a. shorten_file_ref hash extract n a st) (seen, m, heap) refs)) p
        = m p)"
proof (induction refs arbitrary: seen m heap)
  case Nil
  show ?case by simp
next
  case (Cons b refs)
  show ?case
  proof (cases "under_color extract (heap b)")
    case True
    with Cons.IH [where seen = seen and m = m and heap = heap] show ?thesis
      by (simp add: shorten_file_ref_eq)
  next
    case False
    define q where "q = unique_shortened_path (ShortenFileName hash (heap b) n)
       (extension_of extract (heap b)) seen 0"
    define R where "R = foldl (\<lambda>st a. shorten_file_ref hash extract n a st)
       (q # seen, map_insert (heap b) q m, heap(b := q)) refs"
    from False
    have f: "foldl (\<lambda>st a. shorten_file_ref hash extract n a st) (seen, m, heap) (b # refs)
        = R" by (simp add: R_def shorten_file_ref_eq q_def)
    note ih = Cons.IH [where seen = "q # seen" and m = "map_insert (heap b) q m"
        and heap = "heap(b := q)", folded R_def]
    have 1: "snd (snd R) a = heap a" if c: "under_color extract (heap a)" for a
    proof -
      from c False have "a \<noteq> b" by auto
      with c have "under_color extract ((heap(b := q)) a)" by simp
      with ih have "snd (snd R) a = (heap(b := q)) a" by blast
      with \<open>a \<noteq> b\<close> show ?thesis by simp
    qed
    have 2: "fst (snd R) p = m p" if c: "under_color extract p" for p
    proof -
      from c False have "p \<noteq> heap b" by auto
      moreover from ih c have "fst (snd R) p = map_insert (heap b) q m p" by blast
      ultimately show ?thesis by (simp add: map_insert_def split: option.splits)
    qed
    from 1 2 show ?thesis unfolding f by blast
  qed
qed

text \<open>
  C7. Whatever the table, a file reference whose subdirectory, as
  \<^verbatim>\<open>ExtractResFilePathParts\<close> gives it, starts with \<^verbatim>\<open>res/color\<close> keeps its path, and the pass
  adds no binding for such a path to \<^verbatim>\<open>shortened_path_map\<close>: the map has the path as a key
  afterwards only if it had it before.
\<close>

theorem color_paths_are_kept:
  assumes "HandleShortenFilePaths hash extract table heap m = (ok, heap', m')"
  shows "(\<forall>a. under_color extract (heap a) \<longrightarrow> heap' a = heap a)
     \<and> (\<forall>p. under_color extract p \<longrightarrow> m' p = m p)
     \<and> (\<forall>p. under_color extract p \<longrightarrow> p \<notin> dom m \<longrightarrow> p \<notin> dom m')"
proof -
  note c = foldl_shorten_file_ref_color [of "extract" heap hash
      "OptimalShortenedLength (size_to_int (length (file_refs_order heap table)))" "[]" m
      "file_refs_order heap table"]
  from assms c have "(\<forall>a. under_color extract (heap a) \<longrightarrow> heap' a = heap a)
     \<and> (\<forall>p. under_color extract p \<longrightarrow> m' p = m p)"
    by (simp add: HandleShortenFilePaths_eq)
  then show ?thesis by (auto simp: dom_def)
qed

lemma example_file_refs: "table_file_refs example_table = [0, 1, 2, 3]"
  by (simp add: table_file_refs_def example_table_def value_file_refs_def)

lemma example_order: "file_refs_order example_heap example_table = [3, 2, 1, 0]"
proof -
  have "distinct (map example_heap (table_file_refs example_table))"
    by (simp add: example_file_refs example_heap_def)
  from file_refs_order_rev [OF this] show ?thesis by (simp add: example_file_refs)
qed

lemma example_parts:
  "ExtractResFilePathParts ''res/drawable/bar.png'' = (''res/drawable/'', ''bar'', ''.png'')"
  "ExtractResFilePathParts ''res/drawable/foo.png'' = (''res/drawable/'', ''foo'', ''.png'')"
  "ExtractResFilePathParts ''res/layout/main.xml'' = (''res/layout/'', ''main'', ''.xml'')"
  "ExtractResFilePathParts ''res/color/tint.xml'' = (''res/color/'', ''tint'', ''.xml'')"
  by (simp_all add: ExtractResFilePathParts_def StartsWith_def Let_def)

lemma example_alias: "ShortenFileName hash_Ab p 2 = ''Ab''"
  by code_simp

lemma example_run:
  "HandleShortenFilePaths hash_Ab ExtractResFilePathParts example_table example_heap Map.empty =
     (True,
      example_heap(2 := ''res/Ab.xml'', 1 := ''res/Ab.png'', 0 := ''res/Ab1.png''),
      [''res/layout/main.xml'' \<mapsto> ''res/Ab.xml'', ''res/drawable/foo.png'' \<mapsto> ''res/Ab.png'',
       ''res/drawable/bar.png'' \<mapsto> ''res/Ab1.png''])"
  unfolding HandleShortenFilePaths_eq example_order
  by (simp add: OptimalShortenedLength_def size_to_int_small
      shorten_file_ref_eq under_color_def extension_of_def example_heap_def example_parts
      StartsWith_def example_alias unique_shortened_path.simps GetShortenedPath_def
      to_string_def to_string_nat.simps digit_chars_def map_insert_def)

theorem color_paths_are_kept_witness:
  "under_color ExtractResFilePathParts (example_heap 3)
   \<and> fst (snd (HandleShortenFilePaths hash_Ab ExtractResFilePathParts example_table
         example_heap Map.empty)) 3 = ''res/color/tint.xml''
   \<and> snd (snd (HandleShortenFilePaths hash_Ab ExtractResFilePathParts example_table
         example_heap Map.empty)) ''res/color/tint.xml'' = None
   \<and> ''res/color/tint.xml'' \<notin> dom (snd (snd (HandleShortenFilePaths hash_Ab
         ExtractResFilePathParts example_table example_heap Map.empty)))"
proof -
  have c: "under_color ExtractResFilePathParts (example_heap 3)"
    by (simp add: under_color_def example_heap_def example_parts StartsWith_def)
  have h: "example_heap 3 = ''res/color/tint.xml''" by (simp add: example_heap_def)
  from color_paths_are_kept [OF example_run] c
  have "(example_heap(2 := ''res/Ab.xml'', 1 := ''res/Ab.png'', 0 := ''res/Ab1.png'')) 3
      = example_heap 3"
    and "[''res/layout/main.xml'' \<mapsto> ''res/Ab.xml'', ''res/drawable/foo.png'' \<mapsto> ''res/Ab.png'',
       ''res/drawable/bar.png'' \<mapsto> ''res/Ab1.png''] (example_heap 3) = Map.empty (example_heap 3)"
    by blast+
  with c h show ?thesis by (simp add: example_run)
qed

lemma shorten_paths_notin:
  "j < length ps \<Longrightarrow> \<not> under_color extract (ps ! j) \<Longrightarrow>
     shorten_paths hash extract n seen ps ! j \<notin> set seen"
proof (induction ps arbitrary: seen j)
  case Nil
  then show ?case by simp
next
  case (Cons p ps)
  show ?case
  proof (cases j)
    case 0
    with Cons.prems unique_shortened_path_free show ?thesis by (simp add: Let_def)
  next
    case (Suc k)
    with Cons.prems have k: "k < length ps" "\<not> under_color extract (ps ! k)" by simp_all
    from Cons.IH [OF k, of seen]
      Cons.IH [OF k, of "unique_shortened_path (ShortenFileName hash p n)
        (extension_of extract p) seen 0 # seen"]
    show ?thesis by (simp add: Suc Let_def)
  qed
qed

lemma shorten_paths_distinct:
  "i < j \<Longrightarrow> j < length ps \<Longrightarrow> \<not> under_color extract (ps ! i) \<Longrightarrow>
   \<not> under_color extract (ps ! j) \<Longrightarrow>
     shorten_paths hash extract n seen ps ! i \<noteq> shorten_paths hash extract n seen ps ! j"
proof (induction ps arbitrary: seen i j)
  case Nil
  then show ?case by simp
next
  case (Cons p ps)
  from Cons.prems obtain k where j: "j = Suc k" by (cases j) auto
  with Cons.prems have k: "k < length ps" "\<not> under_color extract (ps ! k)" by simp_all
  show ?case
  proof (cases i)
    case 0
    with Cons.prems have np: "\<not> under_color extract p" by simp
    from shorten_paths_notin [OF k, of hash n "unique_shortened_path (ShortenFileName hash p n)
        (extension_of extract p) seen 0 # seen"] np
    show ?thesis by (auto simp: 0 j Let_def)
  next
    case (Suc l)
    with Cons.prems j have l: "l < k" "\<not> under_color extract (ps ! l)" by simp_all
    from Cons.IH [OF l(1) k(1) l(2) k(2), of seen]
      Cons.IH [OF l(1) k(1) l(2) k(2), of "unique_shortened_path (ShortenFileName hash p n)
        (extension_of extract p) seen 0 # seen"]
    show ?thesis by (simp add: Suc j Let_def)
  qed
qed

lemma HandleShortenFilePaths_paths:
  assumes "distinct (table_file_refs table)"
    and "HandleShortenFilePaths hash extract table heap m = (ok, heap', m')"
  shows "ok"
    and "map heap' (file_refs_order heap table) =
      shorten_paths hash extract
        (OptimalShortenedLength (size_to_int (length (file_refs_order heap table)))) []
        (map heap (file_refs_order heap table))"
    and "\<forall>a. a \<notin> set (file_refs_order heap table) \<longrightarrow> heap' a = heap a"
    and "m' = map_of (filter (\<lambda>(p, q). \<not> under_color extract p)
          (zip (map heap (file_refs_order heap table))
            (shorten_paths hash extract
              (OptimalShortenedLength (size_to_int (length (file_refs_order heap table)))) []
              (map heap (file_refs_order heap table))))) ++ m"
proof -
  from assms(1) have d: "distinct (file_refs_order heap table)"
    by (rule file_refs_order_distinct)
  note r = foldl_shorten_file_ref [OF d, of hash "extract"
      "OptimalShortenedLength (size_to_int (length (file_refs_order heap table)))" "[]" m heap]
  from assms(2) show "ok" by (simp add: HandleShortenFilePaths_eq)
  from assms(2) r show "map heap' (file_refs_order heap table) =
      shorten_paths hash extract
        (OptimalShortenedLength (size_to_int (length (file_refs_order heap table)))) []
        (map heap (file_refs_order heap table))"
    by (simp add: HandleShortenFilePaths_eq)
  from assms(2) r show "\<forall>a. a \<notin> set (file_refs_order heap table) \<longrightarrow> heap' a = heap a"
    by (simp add: HandleShortenFilePaths_eq)
  from assms(2) r show "m' = map_of (filter (\<lambda>(p, q). \<not> under_color extract p)
          (zip (map heap (file_refs_order heap table))
            (shorten_paths hash extract
              (OptimalShortenedLength (size_to_int (length (file_refs_order heap table)))) []
              (map heap (file_refs_order heap table))))) ++ m"
    by (simp add: HandleShortenFilePaths_eq)
qed

lemma distinct_snd_key:
  "distinct (map snd kvs) \<Longrightarrow> (a, v) \<in> set kvs \<Longrightarrow> (b, v) \<in> set kvs \<Longrightarrow> a = b"
  by (induction kvs) (auto simp: image_iff)

text \<open>
  C10. In one run over a table whose file references are separate objects, two different
  references that are shortened get different paths. And two different keys that the run
  adds to \<^verbatim>\<open>shortened_path_map\<close> have different values; with a map that is empty before
  the run these are all its keys.
\<close>

theorem shortened_paths_pairwise_distinct:
  assumes "distinct (table_file_refs table)"
    and "HandleShortenFilePaths hash extract table heap m = (ok, heap', m')"
  shows "(\<forall>a \<in> set (file_refs_order heap table). \<forall>b \<in> set (file_refs_order heap table).
            a \<noteq> b \<longrightarrow> \<not> under_color extract (heap a) \<longrightarrow> \<not> under_color extract (heap b) \<longrightarrow>
            heap' a \<noteq> heap' b)
     \<and> (\<forall>k1 k2 v. m' k1 = Some v \<longrightarrow> m' k2 = Some v \<longrightarrow> k1 \<notin> dom m \<longrightarrow> k2 \<notin> dom m \<longrightarrow>
            k1 = k2)"
proof (intro conjI ballI allI impI)
  define refs where "refs = file_refs_order heap table"
  define n where "n = OptimalShortenedLength (size_to_int (length refs))"
  define qs where "qs = shorten_paths hash extract n [] (map heap refs)"
  note p = HandleShortenFilePaths_paths [OF assms, folded refs_def, folded n_def, folded qs_def]
  have q: "heap' (refs ! i) = qs ! i" if "i < length refs" for i
    using p(2) that by (metis nth_map)
  have lt: "qs ! i \<noteq> qs ! j" if "i < j" "j < length refs"
    "\<not> under_color extract (heap (refs ! i))" "\<not> under_color extract (heap (refs ! j))" for i j
    unfolding qs_def using that by (intro shorten_paths_distinct) simp_all
  {
    fix a b
    assume a: "a \<in> set (file_refs_order heap table)" and b: "b \<in> set (file_refs_order heap table)"
      and ne: "a \<noteq> b" and ca: "\<not> under_color extract (heap a)"
      and cb: "\<not> under_color extract (heap b)"
    from a b obtain i j where i: "i < length refs" "refs ! i = a"
      and j: "j < length refs" "refs ! j = b"
      unfolding refs_def [symmetric] by (auto simp: in_set_conv_nth)
    from ne i j have "i \<noteq> j" by auto
    then consider "i < j" | "j < i" by linarith
    then have "qs ! i \<noteq> qs ! j"
    proof cases
      case 1
      with lt [of i j] i j ca cb show ?thesis by simp
    next
      case 2
      with lt [of j i] i j ca cb show ?thesis by simp
    qed
    with q [OF i(1)] q [OF j(1)] i j show "heap' a \<noteq> heap' b" by simp
  next
    fix k1 k2 v
    assume 1: "m' k1 = Some v" and 2: "m' k2 = Some v" and n1: "k1 \<notin> dom m" and n2: "k2 \<notin> dom m"
    define kvs where "kvs = filter (\<lambda>(p, q). \<not> under_color extract p) (zip (map heap refs) qs)"
    from p(4) have m': "m' = map_of kvs ++ m" by (simp add: kvs_def)
    from 1 n1 have "map_of kvs k1 = Some v" by (auto simp: m' map_add_def split: option.splits)
    then have a: "(k1, v) \<in> set kvs" by (rule map_of_SomeD)
    from 2 n2 have "map_of kvs k2 = Some v" by (auto simp: m' map_add_def split: option.splits)
    then have b: "(k2, v) \<in> set kvs" by (rule map_of_SomeD)
    have "distinct (map snd kvs)"
      unfolding kvs_def qs_def using shorten_paths_fresh [of "extract" "map heap refs" hash n "[]"]
      by simp
    from distinct_snd_key [OF this a b] show "k1 = k2" .
  }
qed

lemma example_distinct: "distinct (table_file_refs example_table)"
  by (simp add: example_file_refs)

theorem shortened_paths_pairwise_distinct_witness:
  "fst (snd (HandleShortenFilePaths hash_Ab ExtractResFilePathParts example_table
         example_heap Map.empty)) 0 \<noteq>
   fst (snd (HandleShortenFilePaths hash_Ab ExtractResFilePathParts example_table
         example_heap Map.empty)) 1
   \<and> snd (snd (HandleShortenFilePaths hash_Ab ExtractResFilePathParts example_table
         example_heap Map.empty)) ''res/drawable/foo.png'' = Some ''res/Ab.png''
   \<and> snd (snd (HandleShortenFilePaths hash_Ab ExtractResFilePathParts example_table
         example_heap Map.empty)) ''res/drawable/bar.png'' = Some ''res/Ab1.png''"
proof -
  note t = shortened_paths_pairwise_distinct [OF example_distinct example_run,
      unfolded example_order]
  have c: "\<not> under_color ExtractResFilePathParts (example_heap 0)"
    "\<not> under_color ExtractResFilePathParts (example_heap 1)"
    by (simp_all add: under_color_def example_heap_def example_parts StartsWith_def)
  from t have "\<forall>a \<in> set [3, 2, 1, 0 :: nat]. \<forall>b \<in> set [3, 2, 1, 0].
            a \<noteq> b \<longrightarrow> \<not> under_color ExtractResFilePathParts (example_heap a) \<longrightarrow>
            \<not> under_color ExtractResFilePathParts (example_heap b) \<longrightarrow>
            (example_heap(2 := ''res/Ab.xml'', 1 := ''res/Ab.png'', 0 := ''res/Ab1.png'')) a \<noteq>
            (example_heap(2 := ''res/Ab.xml'', 1 := ''res/Ab.png'', 0 := ''res/Ab1.png'')) b"
    by (rule conjunct1)
  then have "(0::nat) \<noteq> 1 \<longrightarrow> \<not> under_color ExtractResFilePathParts (example_heap 0) \<longrightarrow>
            \<not> under_color ExtractResFilePathParts (example_heap 1) \<longrightarrow>
            (example_heap(2 := ''res/Ab.xml'', 1 := ''res/Ab.png'', 0 := ''res/Ab1.png'')) 0 \<noteq>
            (example_heap(2 := ''res/Ab.xml'', 1 := ''res/Ab.png'', 0 := ''res/Ab1.png'')) 1"
    by (simp del: fun_upd_apply)
  with c have "(example_heap(2 := ''res/Ab.xml'', 1 := ''res/Ab.png'', 0 := ''res/Ab1.png'')) 0 \<noteq>
            (example_heap(2 := ''res/Ab.xml'', 1 := ''res/Ab.png'', 0 := ''res/Ab1.png'')) 1"
    by simp
  then show ?thesis by (simp add: example_run)
qed

text \<open>
  C8. The length handed to \<^verbatim>\<open>ShortenFileName\<close> is 3 when the size of the set \<^verbatim>\<open>file_refs\<close>,
  as the call converts it to \<^verbatim>\<open>int\<close>, is more than 4000, and 2 otherwise; below \<open>2 ^ 31\<close>
  the conversion changes nothing. In a run over a table whose file references are separate
  objects, the path given to a shortened reference, and the value of a key that the run
  adds to \<^verbatim>\<open>shortened_path_map\<close>, is built from the alias of that length. The size of the
  set is the number of the table's file references when their paths all differ. In
  general it lies between the number of different paths and the number of references, and
  with \<^verbatim>\<open>PathComparator\<close> as it is written it need be neither.
\<close>

theorem alias_length_by_set_size:
  assumes "distinct (table_file_refs table)"
    and "HandleShortenFilePaths hash extract table heap m = (ok, heap', m')"
    and "N = set_size (collect_file_refs heap table)"
    and "L = OptimalShortenedLength (size_to_int N)"
  shows "L = (if 4000 < size_to_int N then 3 else 2)
     \<and> (N < 2 ^ 31 \<longrightarrow> L = (if N \<le> 4000 then 2 else 3))
     \<and> card (heap ` set (table_file_refs table)) \<le> N
     \<and> N \<le> length (table_file_refs table)
     \<and> (distinct (map heap (table_file_refs table)) \<longrightarrow> N = length (table_file_refs table))
     \<and> (\<forall>a \<in> set (file_refs_order heap table). \<not> under_color extract (heap a) \<longrightarrow>
          (\<exists>k. heap' a =
             GetShortenedPath (ShortenFileName hash (heap a) L) (extension_of extract (heap a))
               (int k))
          \<and> length (ShortenFileName hash (heap a) L) = nat L)
     \<and> (\<forall>p q. m' p = Some q \<longrightarrow> p \<notin> dom m \<longrightarrow>
          (\<exists>k. q = GetShortenedPath (ShortenFileName hash p L) (extension_of extract p) (int k))
          \<and> length (ShortenFileName hash p L) = nat L)"
proof (intro conjI ballI allI impI)
  define refs where "refs = file_refs_order heap table"
  have N: "N = length refs" by (simp add: assms(3) set_size_def refs_def file_refs_order_def)
  show "L = (if 4000 < size_to_int N then 3 else 2)"
    by (simp add: OptimalShortenedLength_def assms(4))
  show "L = (if N \<le> 4000 then 2 else 3)" if "N < 2 ^ 31"
    using that by (auto simp: OptimalShortenedLength_def assms(4) size_to_int_small)
  show "card (heap ` set (table_file_refs table)) \<le> N"
    unfolding assms(3) by (rule set_size_bounds(1) [OF assms(1)])
  show "N \<le> length (table_file_refs table)"
    unfolding assms(3) by (rule set_size_bounds(2) [OF assms(1)])
  show "N = length (table_file_refs table)" if "distinct (map heap (table_file_refs table))"
    using file_refs_order_rev [OF that] by (simp add: N refs_def)
  have OL: "OptimalShortenedLength (size_to_int N) = L" by (simp add: assms(4))
  define qs where "qs = shorten_paths hash extract L [] (map heap refs)"
  note p = HandleShortenFilePaths_paths [OF assms(1,2), folded refs_def, folded N,
      unfolded OL, folded qs_def]
  have q: "heap' (refs ! i) = qs ! i" if "i < length refs" for i
    using p(2) that by (metis nth_map)
  have form: "\<exists>k. qs ! i = GetShortenedPath (ShortenFileName hash (heap (refs ! i)) L)
      (extension_of extract (heap (refs ! i))) (int k)"
    if "i < length refs" "\<not> under_color extract (heap (refs ! i))" for i
    unfolding qs_def
    using shorten_paths_form [of i "map heap refs" "extract" hash L "[]"] that by simp
  {
    fix a
    assume a: "a \<in> set (file_refs_order heap table)" and c: "\<not> under_color extract (heap a)"
    from a obtain i where i: "i < length refs" "refs ! i = a"
      unfolding refs_def [symmetric] by (auto simp: in_set_conv_nth)
    from form [OF i(1)] c i q [OF i(1)]
    show "\<exists>k. heap' a = GetShortenedPath (ShortenFileName hash (heap a) L)
        (extension_of extract (heap a)) (int k)"
      by simp
    show "length (ShortenFileName hash (heap a) L) = nat L" by (rule ShortenFileName_length)
  next
    fix p' q'
    assume 1: "m' p' = Some q'" and 2: "p' \<notin> dom m"
    define kvs where "kvs = filter (\<lambda>(p, q). \<not> under_color extract p) (zip (map heap refs) qs)"
    from p(4) have m': "m' = map_of kvs ++ m" by (simp add: kvs_def)
    from 1 2 have "map_of kvs p' = Some q'"
      by (auto simp: m' map_add_def split: option.splits)
    then have "(p', q') \<in> set kvs" by (rule map_of_SomeD)
    then have z: "(p', q') \<in> set (zip (map heap refs) qs)" and c: "\<not> under_color extract p'"
      by (simp_all add: kvs_def)
    from z obtain i where i: "i < length refs" "heap (refs ! i) = p'" "qs ! i = q'"
      by (auto simp: in_set_zip)
    from form [OF i(1)] c i
    show "\<exists>k. q' = GetShortenedPath (ShortenFileName hash p' L) (extension_of extract p') (int k)"
      by simp
    show "length (ShortenFileName hash p' L) = nat L" by (rule ShortenFileName_length)
  }
qed

lemma count_list_map_filter:
  "count_list (map g (filter P xs)) k = length (filter (\<lambda>x. P x \<and> g x = k) xs)"
  by (induction xs) auto

text \<open>
  C4. The candidate is \<^verbatim>\<open>res/\<close>, the alias, the decimal count when it is positive, and the
  extension; the search starts at count 0, moves to the next count while the candidate is
  among the paths assigned before, and ends with a path that is not among them. So, in a
  run over a table whose file references are separate objects and with extensions that do
  not begin with a digit, the reference processed at position \<open>i\<close> gets the count of the
  references shortened before it that have its alias and its extension: the first of them
  the bare alias, the later ones the suffixes 1, 2, 3 and so on, in the order of
  processing.
\<close>

theorem shortened_path_suffix_by_order:
  assumes "distinct (table_file_refs table)"
    and "\<forall>p. \<not> starts_with_digit (extension_of extract p)"
    and "HandleShortenFilePaths hash extract table heap m = (ok, heap', m')"
    and "refs = file_refs_order heap table"
    and "n = OptimalShortenedLength (size_to_int (length refs))"
    and "i < length refs"
    and "\<not> under_color extract (heap (refs ! i))"
    and "alias = ShortenFileName hash (heap (refs ! i)) n"
    and "ext = extension_of extract (heap (refs ! i))"
  shows "heap' (refs ! i) =
       GetShortenedPath alias ext
         (int (length (filter
            (\<lambda>a. \<not> under_color extract (heap a) \<and> ShortenFileName hash (heap a) n = alias \<and>
                 extension_of extract (heap a) = ext)
            (take i refs))))
     \<and> (\<forall>c. GetShortenedPath alias ext c =
           ''res/'' @ alias @ (if c > 0 then to_string c else []) @ ext)
     \<and> (\<forall>seen c. unique_shortened_path alias ext seen c =
           (if GetShortenedPath alias ext c \<in> set seen
            then unique_shortened_path alias ext seen (c + 1)
            else GetShortenedPath alias ext c))
     \<and> (\<forall>seen c. unique_shortened_path alias ext seen c \<notin> set seen)"
proof (intro conjI allI)
  note p = HandleShortenFilePaths_paths [OF assms(1,3), folded assms(4), folded assms(5)]
  from p(2) assms(6) have q: "heap' (refs ! i) =
      shorten_paths hash extract n [] (map heap refs) ! i"
    by (metis nth_map)
  have inv: "set ([] :: string list) =
      {GetShortenedPath f e (int c) | f e c. c < count_list ([] :: (string \<times> string) list) (f, e)}"
    by simp
  have K: "\<forall>(f, e) \<in> set ([] :: (string \<times> string) list). length f = nat n \<and> \<not> starts_with_digit e"
    by simp
  from assms(6,7) have i: "i < length (map heap refs)"
    "\<not> under_color extract (map heap refs ! i)" by simp_all
  have t: "filter (\<lambda>p. \<not> under_color extract p) (take i (map heap refs)) =
      map heap (filter (\<lambda>a. \<not> under_color extract (heap a)) (take i refs))"
    by (simp add: take_map filter_map comp_def)
  from shorten_paths_count [OF inv K assms(2) i, of hash] assms(6)
  show "heap' (refs ! i) =
       GetShortenedPath alias ext
         (int (length (filter
            (\<lambda>a. \<not> under_color extract (heap a) \<and> ShortenFileName hash (heap a) n = alias \<and>
                 extension_of extract (heap a) = ext)
            (take i refs))))"
    unfolding q t by (simp add: assms(8,9) count_list_map_filter comp_def)
  show "GetShortenedPath alias ext c =
           ''res/'' @ alias @ (if c > 0 then to_string c else []) @ ext" for c
    by (rule GetShortenedPath_eq)
  show "unique_shortened_path alias ext seen c =
           (if GetShortenedPath alias ext c \<in> set seen
            then unique_shortened_path alias ext seen (c + 1)
            else GetShortenedPath alias ext c)" for seen c
    by (rule unique_shortened_path.simps)
  show "unique_shortened_path alias ext seen c \<notin> set seen" for seen c
    by (rule unique_shortened_path_free)
qed

lemma ExtractResFilePathParts_extension:
  "\<not> starts_with_digit (extension_of ExtractResFilePathParts p)"
proof -
  have d: "\<not> starts_with_digit (dropWhile (\<lambda>c. c \<noteq> CHR ''.'') xs)" for xs
  proof (cases "dropWhile (\<lambda>c. c \<noteq> CHR ''.'') xs")
    case Nil
    show ?thesis unfolding starts_with_digit_def Nil by simp
  next
    case (Cons c cs)
    with hd_dropWhile [of "\<lambda>c. c \<noteq> CHR ''.''" xs] have "c = CHR ''.''" by simp
    with Cons show ?thesis by (simp add: starts_with_digit_def digit_chars_def)
  qed
  show ?thesis
    by (simp add: extension_of_def ExtractResFilePathParts_def Let_def d)
       (simp add: starts_with_digit_def)
qed

theorem shortened_path_suffix_by_order_witness:
  "file_refs_order example_heap example_table = [3, 2, 1, 0]
   \<and> example_heap 1 = ''res/drawable/foo.png'' \<and> example_heap 0 = ''res/drawable/bar.png''
   \<and> ShortenFileName hash_Ab (example_heap 1) 2 = ShortenFileName hash_Ab (example_heap 0) 2
   \<and> fst (snd (HandleShortenFilePaths hash_Ab ExtractResFilePathParts example_table
         example_heap Map.empty)) 1 = ''res/Ab.png''
   \<and> fst (snd (HandleShortenFilePaths hash_Ab ExtractResFilePathParts example_table
         example_heap Map.empty)) 0 = ''res/Ab1.png''"
proof -
  have nd: "\<forall>p. \<not> starts_with_digit (extension_of ExtractResFilePathParts p)"
    by (simp add: ExtractResFilePathParts_extension)
  have n: "2 = OptimalShortenedLength (size_to_int (length [3, 2, 1, 0 :: nat]))"
    by (simp add: OptimalShortenedLength_def size_to_int_small)
  have c: "\<not> under_color ExtractResFilePathParts (example_heap 0)"
    "\<not> under_color ExtractResFilePathParts (example_heap 1)"
    "\<not> under_color ExtractResFilePathParts (example_heap 2)"
    "under_color ExtractResFilePathParts (example_heap 3)"
    by (simp_all add: under_color_def example_heap_def example_parts StartsWith_def)
  have e: "extension_of ExtractResFilePathParts (example_heap 0) = ''.png''"
    "extension_of ExtractResFilePathParts (example_heap 1) = ''.png''"
    "extension_of ExtractResFilePathParts (example_heap 2) = ''.xml''"
    by (simp_all add: extension_of_def example_heap_def example_parts)
  note t = shortened_path_suffix_by_order [OF example_distinct nd example_run
      example_order [symmetric] n _ _ refl refl, THEN conjunct1]
  from t [of 2] c e
  have 1: "(example_heap(2 := ''res/Ab.xml'', 1 := ''res/Ab.png'', 0 := ''res/Ab1.png'')) 1 =
      GetShortenedPath ''Ab'' ''.png'' 0"
    by (simp add: example_alias)
  from t [of 3] c e
  have 0: "(example_heap(2 := ''res/Ab.xml'', 1 := ''res/Ab.png'', 0 := ''res/Ab1.png'')) 0 =
      GetShortenedPath ''Ab'' ''.png'' 1"
    by (simp add: example_alias)
  have g: "GetShortenedPath ''Ab'' ''.png'' 0 = ''res/Ab.png''"
    "GetShortenedPath ''Ab'' ''.png'' 1 = ''res/Ab1.png''"
    by (simp_all add: GetShortenedPath_def to_string_def to_string_nat.simps digit_chars_def)
  have h: "example_heap 1 = ''res/drawable/foo.png''" "example_heap 0 = ''res/drawable/bar.png''"
    by (simp_all add: example_heap_def)
  from 0 1 have "fst (snd (HandleShortenFilePaths hash_Ab ExtractResFilePathParts example_table
         example_heap Map.empty)) 1 = ''res/Ab.png''"
    "fst (snd (HandleShortenFilePaths hash_Ab ExtractResFilePathParts example_table
         example_heap Map.empty)) 0 = ''res/Ab1.png''"
    unfolding example_run g by simp_all
  with h show ?thesis by (simp add: example_order example_alias)
qed

lemma example_size: "set_size (collect_file_refs example_heap example_table) = 4"
  using example_order by (simp add: set_size_def file_refs_order_def)

lemma many_files_refs: "table_file_refs (many_files_table n) = [0..<n]"
proof -
  have "concat (map (\<lambda>a. [a]) xs) = xs" for xs :: "nat list"
    by (induction xs) simp_all
  then show ?thesis
    by (simp add: table_file_refs_def many_files_table_def value_file_refs_def comp_def)
qed

lemma many_files_order: "file_refs_order many_files_heap (many_files_table n) = rev [0..<n]"
proof -
  have "inj many_files_heap"
    by (rule injI) (simp add: many_files_heap_def to_string_nat_inj)
  then have "distinct (map many_files_heap [0..<n])"
    by (simp add: distinct_map inj_on_def inj_def)
  then show ?thesis using file_refs_order_rev [of many_files_heap "many_files_table n"]
    by (simp add: many_files_refs)
qed

lemma many_files_size:
  "set_size (collect_file_refs many_files_heap (many_files_table n)) = n"
  using many_files_order [of n] by (simp add: set_size_def file_refs_order_def)

lemma repeated_first_order:
  "file_refs_order repeated_first_heap (many_files_table 4001) = rev [0..<4001]"
proof -
  have n: "(4001::nat) = Suc 4000" by simp
  have i: "inj_on repeated_first_heap {0..<4000}"
    by (rule inj_onI) (simp add: repeated_first_heap_def many_files_heap_def to_string_nat_inj)
  have v: "repeated_first_heap 4000 = repeated_first_heap 0"
    by (simp add: repeated_first_heap_def)
  have "set_iterate (foldl (\<lambda>s a. set_insert (PathComparator repeated_first_heap) a s) Leaf
          [0..<Suc 4000]) = rev [0..<Suc 4000]"
    by (rule foldl_set_insert_repeated_first_upt [OF _ i v]) simp
  then show ?thesis
    unfolding file_refs_order_def collect_file_refs_flat many_files_refs n .
qed

lemma repeated_first_size:
  "set_size (collect_file_refs repeated_first_heap (many_files_table 4001)) = 4001"
  using repeated_first_order by (simp add: set_size_def file_refs_order_def)

lemma repeated_first_paths:
  "card (repeated_first_heap ` set (table_file_refs (many_files_table 4001))) = 4000"
proof -
  have "repeated_first_heap ` {0..<4001} = many_files_heap ` {0..<4000}"
  proof (intro equalityI subsetI)
    fix p assume "p \<in> repeated_first_heap ` {0..<4001}"
    then obtain a where a: "a < 4001" "p = repeated_first_heap a" by auto
    show "p \<in> many_files_heap ` {0..<4000}"
    proof (cases "a = 4000")
      case True
      with a have "p = many_files_heap 0" by (simp add: repeated_first_heap_def)
      then show ?thesis by simp
    next
      case False
      with a have "p = many_files_heap a" "a < 4000" by (simp_all add: repeated_first_heap_def)
      then show ?thesis by simp
    qed
  next
    fix p assume "p \<in> many_files_heap ` {0..<4000}"
    then obtain a where a: "a < 4000" "p = many_files_heap a" by auto
    then have "p = repeated_first_heap a" "a < 4001" by (simp_all add: repeated_first_heap_def)
    then show "p \<in> repeated_first_heap ` {0..<4001}" by simp
  qed
  moreover have "inj_on many_files_heap {0..<4000}"
    by (rule inj_onI) (simp add: many_files_heap_def to_string_nat_inj)
  then have "card (many_files_heap ` {0..<4000}) = 4000" by (simp add: card_image)
  ultimately show ?thesis by (simp add: many_files_refs)
qed

lemma one_path_order:
  "file_refs_order one_path_heap (many_files_table 4001) = [0]"
proof -
  have n: "(4001::nat) = Suc 4000" by simp
  have "\<forall>x. one_path_heap x = one_path_heap 0" by (simp add: one_path_heap_def)
  from foldl_set_insert_one_path_upt [OF this, of 4000]
  show ?thesis
    unfolding file_refs_order_def collect_file_refs_flat many_files_refs n by simp
qed

lemma one_path_size:
  "set_size (collect_file_refs one_path_heap (many_files_table 4001)) = 1"
  using one_path_order by (simp add: set_size_def file_refs_order_def)

lemma one_path_paths:
  "card (one_path_heap ` set (table_file_refs (many_files_table 4001))) = 1"
proof -
  have "(0::nat) \<in> {0..<4001}" by simp
  then have "one_path_heap 0 \<in> one_path_heap ` {0..<4001}" by (rule imageI)
  moreover have "one_path_heap ` {0..<4001} \<subseteq> {''res/raw/f.bin''}"
    by (auto simp: one_path_heap_def)
  ultimately have "one_path_heap ` {0..<4001} = {''res/raw/f.bin''}"
    unfolding one_path_heap_def by blast
  then show ?thesis by (simp add: many_files_refs)
qed

lemma example_alias_3: "ShortenFileName hash_Ab p 3 = ''AbA''"
  by code_simp

lemma many_files_parts:
  "ExtractResFilePathParts ''res/raw/f0.bin'' = (''res/raw/'', ''f0'', ''.bin'')"
  "ExtractResFilePathParts ''res/raw/f.bin'' = (''res/raw/'', ''f'', ''.bin'')"
  by (simp_all add: ExtractResFilePathParts_def StartsWith_def Let_def)

lemma HandleShortenFilePaths_triple:
  "HandleShortenFilePaths hash extract table heap m =
     (fst (HandleShortenFilePaths hash extract table heap m),
      fst (snd (HandleShortenFilePaths hash extract table heap m)),
      snd (snd (HandleShortenFilePaths hash extract table heap m)))"
  by simp

text \<open>
  4001 files, the last with the path of the first: 4000 different paths, a set of 4001
  and aliases of three symbols. The reference processed first is the last of the table.
\<close>

lemma repeated_first_run:
  "fst (snd (HandleShortenFilePaths hash_Ab ExtractResFilePathParts (many_files_table 4001)
     repeated_first_heap Map.empty)) 4000 = ''res/AbA.bin''"
proof -
  have md: "distinct (table_file_refs (many_files_table 4001))"
    by (simp add: many_files_refs)
  have r: "rev [0..<4001] = 4000 # rev [0..<4000]"
  proof -
    have "(4001::nat) = Suc 4000" by simp
    then have "[0..<4001] = [0..<4000] @ [4000]" by (simp only: upt_Suc) simp
    then show ?thesis by (simp only: rev_append rev.simps append.simps)
  qed
  have l: "OptimalShortenedLength (size_to_int (length (4000 # rev [0..<4000 :: nat]))) = 3"
    by (simp add: OptimalShortenedLength_def size_to_int_small)
  have h: "repeated_first_heap 4000 = ''res/raw/f0.bin''"
    by (simp add: repeated_first_heap_def many_files_heap_def to_string_nat.simps digit_chars_def)
  note p = HandleShortenFilePaths_paths(2) [OF md HandleShortenFilePaths_triple,
      of hash_Ab ExtractResFilePathParts repeated_first_heap Map.empty,
      unfolded repeated_first_order r l]
  have "hd (map (fst (snd (HandleShortenFilePaths hash_Ab ExtractResFilePathParts
          (many_files_table 4001) repeated_first_heap Map.empty))) (4000 # rev [0..<4000])) =
        hd (shorten_paths hash_Ab ExtractResFilePathParts 3 []
          (map repeated_first_heap (4000 # rev [0..<4000])))"
    by (simp only: p)
  then show ?thesis
    by (simp add: h under_color_def extension_of_def many_files_parts StartsWith_def
        example_alias_3 unique_shortened_path.simps GetShortenedPath_def Let_def)
qed

lemma one_path_run:
  "HandleShortenFilePaths hash_Ab ExtractResFilePathParts (many_files_table 4001)
     one_path_heap Map.empty =
     (True, one_path_heap(0 := ''res/Ab.bin''), [''res/raw/f.bin'' \<mapsto> ''res/Ab.bin''])"
  unfolding HandleShortenFilePaths_eq one_path_order
  by (simp add: OptimalShortenedLength_def size_to_int_small
      shorten_file_ref_eq under_color_def extension_of_def one_path_heap_def many_files_parts
      StartsWith_def example_alias unique_shortened_path.simps GetShortenedPath_def
      map_insert_def)

theorem alias_length_by_set_size_witness:
  "card (repeated_first_heap ` set (table_file_refs (many_files_table 4001))) = 4000
   \<and> length (table_file_refs (many_files_table 4001)) = 4001
   \<and> set_size (collect_file_refs repeated_first_heap (many_files_table 4001)) = 4001
   \<and> OptimalShortenedLength (size_to_int 4001) = 3
   \<and> fst (snd (HandleShortenFilePaths hash_Ab ExtractResFilePathParts (many_files_table 4001)
         repeated_first_heap Map.empty)) 4000 = ''res/AbA.bin''
   \<and> card (one_path_heap ` set (table_file_refs (many_files_table 4001))) = 1
   \<and> set_size (collect_file_refs one_path_heap (many_files_table 4001)) = 1
   \<and> OptimalShortenedLength (size_to_int 1) = 2
   \<and> fst (snd (HandleShortenFilePaths hash_Ab ExtractResFilePathParts (many_files_table 4001)
         one_path_heap Map.empty)) 0 = ''res/Ab.bin''
   \<and> size_to_int (2 ^ 31) = - (2 ^ 31)
   \<and> OptimalShortenedLength (size_to_int (2 ^ 31)) = 2"
proof -
  have md: "distinct (table_file_refs (many_files_table 4001))"
    by (simp add: many_files_refs)
  note a = alias_length_by_set_size [OF md
      HandleShortenFilePaths_triple [of hash_Ab ExtractResFilePathParts "many_files_table 4001"
        repeated_first_heap Map.empty] refl refl, unfolded repeated_first_size]
  from a have "OptimalShortenedLength (size_to_int 4001) =
      (if 4000 < size_to_int 4001 then 3 else 2)"
    by (rule conjunct1)
  also have "\<dots> = 3" by (simp add: size_to_int_small)
  finally have a1: "OptimalShortenedLength (size_to_int 4001) = 3" .
  note b = alias_length_by_set_size [OF md
      HandleShortenFilePaths_triple [of hash_Ab ExtractResFilePathParts "many_files_table 4001"
        one_path_heap Map.empty] refl refl, unfolded one_path_size]
  from b have "OptimalShortenedLength (size_to_int 1) = (if 4000 < size_to_int 1 then 3 else 2)"
    by (rule conjunct1)
  also have "\<dots> = 2" by (simp add: size_to_int_small)
  finally have b1: "OptimalShortenedLength (size_to_int 1) = 2" .
  have l: "length (table_file_refs (many_files_table 4001)) = 4001"
    by (simp add: many_files_refs)
  have w: "OptimalShortenedLength (size_to_int (2 ^ 31)) = 2"
    unfolding size_to_int_wraps by (simp add: OptimalShortenedLength_def)
  have o: "fst (snd (HandleShortenFilePaths hash_Ab ExtractResFilePathParts
      (many_files_table 4001) one_path_heap Map.empty)) 0 = ''res/Ab.bin''"
    by (simp add: one_path_run)
  from a1 b1 l w o repeated_first_paths repeated_first_size repeated_first_run one_path_paths
    one_path_size size_to_int_wraps
  show ?thesis by (intro conjI)
qed

section \<open>The order of processing\<close>

lemma repeated_path_order:
  "file_refs_order repeated_path_heap (many_files_table 4) = [3, 2, 1, 0]"
proof -
  have u: "[0..<4] = [0, 1, 2, 3]" by (simp add: upt_rec)
  show ?thesis
    unfolding file_refs_order_def collect_file_refs_flat many_files_refs u
    by (simp add: set_insert_def PathComparator_def compare_eq_0 repeated_path_heap_def
        balance_after_insert_left_def)
qed

text \<open>
  C2: what the code does. \<^verbatim>\<open>PathComparator\<close> holds of two references exactly when their
  paths differ, so it is no order. With it, a reference whose path is not yet in the set
  becomes the first element: for a table whose paths are all different, the second loop
  runs through the references in the reverse of the order in which the first loop met
  them, whatever the paths are.
\<close>

theorem file_refs_in_reverse_traversal_order:
  "(PathComparator heap lhs rhs \<longleftrightarrow> heap lhs \<noteq> heap rhs)
   \<and> (distinct (map heap (table_file_refs table)) \<longrightarrow>
        file_refs_order heap table = rev (table_file_refs table))"
  by (simp add: PathComparator_neq file_refs_order_rev)

text \<open>
  The same two paths are processed in one order or the other as the table lists them;
  and of two references with one path both can stay in the set.
\<close>

theorem file_refs_in_reverse_traversal_order_witness:
  "PathComparator two_paths_heap 0 1 \<and> PathComparator two_paths_heap 1 0
   \<and> map two_paths_heap (table_file_refs (many_files_table 2)) =
       [''res/drawable/a.png'', ''res/drawable/b.png'']
   \<and> map two_paths_heap (file_refs_order two_paths_heap (many_files_table 2)) =
       [''res/drawable/b.png'', ''res/drawable/a.png'']
   \<and> map two_paths_heap_swapped (table_file_refs (many_files_table 2)) =
       [''res/drawable/b.png'', ''res/drawable/a.png'']
   \<and> map two_paths_heap_swapped (file_refs_order two_paths_heap_swapped (many_files_table 2)) =
       [''res/drawable/a.png'', ''res/drawable/b.png'']
   \<and> map repeated_path_heap (file_refs_order repeated_path_heap (many_files_table 4)) =
       [''res/drawable/a.png'', ''res/drawable/c.png'', ''res/drawable/b.png'',
        ''res/drawable/a.png'']
   \<and> set_size (collect_file_refs repeated_path_heap (many_files_table 4)) = 4"
proof -
  have u: "[0..<2] = [0, 1]" by (simp add: upt_rec)
  note t = file_refs_in_reverse_traversal_order [where table = "many_files_table 2"
      and lhs = 0 and rhs = 1, unfolded many_files_refs u]
  have d: "two_paths_heap 0 \<noteq> two_paths_heap 1"
    "two_paths_heap_swapped 0 \<noteq> two_paths_heap_swapped 1"
    by (simp_all add: two_paths_heap_def two_paths_heap_swapped_def)
  have v: "map two_paths_heap [1, 0] = [''res/drawable/b.png'', ''res/drawable/a.png'']"
    "map two_paths_heap_swapped [1, 0] = [''res/drawable/a.png'', ''res/drawable/b.png'']"
    by (simp_all add: two_paths_heap_def two_paths_heap_swapped_def)
  from t [of two_paths_heap] d v
  have 1: "PathComparator two_paths_heap 0 1"
    and 2: "map two_paths_heap (file_refs_order two_paths_heap (many_files_table 2)) =
       [''res/drawable/b.png'', ''res/drawable/a.png'']"
    by simp_all
  from t [of two_paths_heap_swapped] d v
  have 3: "map two_paths_heap_swapped
        (file_refs_order two_paths_heap_swapped (many_files_table 2)) =
       [''res/drawable/a.png'', ''res/drawable/b.png'']"
    by simp
  from file_refs_in_reverse_traversal_order [of two_paths_heap 1 0, THEN conjunct1] d
  have 4: "PathComparator two_paths_heap 1 0" by simp
  have 5: "map repeated_path_heap (file_refs_order repeated_path_heap (many_files_table 4)) =
       [''res/drawable/a.png'', ''res/drawable/c.png'', ''res/drawable/b.png'',
        ''res/drawable/a.png'']"
    unfolding repeated_path_order by (simp add: repeated_path_heap_def)
  have 6: "set_size (collect_file_refs repeated_path_heap (many_files_table 4)) = 4"
    using repeated_path_order by (simp add: set_size_def file_refs_order_def)
  have 7: "map two_paths_heap (table_file_refs (many_files_table 2)) =
       [''res/drawable/a.png'', ''res/drawable/b.png'']"
    "map two_paths_heap_swapped (table_file_refs (many_files_table 2)) =
       [''res/drawable/b.png'', ''res/drawable/a.png'']"
    by (simp_all add: many_files_refs u two_paths_heap_def two_paths_heap_swapped_def)
  from 1 2 3 4 5 6 7 show ?thesis by simp
qed

text \<open>
  What follows for the table with the repeated path: the two references to \<^verbatim>\<open>a.png\<close> end
  with two different paths, and the map has only the first of them.
\<close>

lemma repeated_path_run:
  "HandleShortenFilePaths hash_Ab ExtractResFilePathParts (many_files_table 4)
      repeated_path_heap Map.empty =
     (True,
      repeated_path_heap(3 := ''res/Ab.png'', 2 := ''res/Ab1.png'', 1 := ''res/Ab2.png'',
        0 := ''res/Ab3.png''),
      [''res/drawable/a.png'' \<mapsto> ''res/Ab.png'', ''res/drawable/c.png'' \<mapsto> ''res/Ab1.png'',
       ''res/drawable/b.png'' \<mapsto> ''res/Ab2.png''])"
proof -
  have p: "ExtractResFilePathParts ''res/drawable/a.png'' = (''res/drawable/'', ''a'', ''.png'')"
    "ExtractResFilePathParts ''res/drawable/b.png'' = (''res/drawable/'', ''b'', ''.png'')"
    "ExtractResFilePathParts ''res/drawable/c.png'' = (''res/drawable/'', ''c'', ''.png'')"
    by (simp_all add: ExtractResFilePathParts_def StartsWith_def Let_def)
  show ?thesis
    unfolding HandleShortenFilePaths_eq repeated_path_order
    by (simp add: OptimalShortenedLength_def size_to_int_small
      shorten_file_ref_eq under_color_def extension_of_def repeated_path_heap_def p
      StartsWith_def example_alias unique_shortened_path.simps GetShortenedPath_def
      to_string_def to_string_nat.simps digit_chars_def map_insert_def)
qed

section \<open>Addresses do not matter\<close>

lemma map_is_red [simp]: "is_red (map_rb_tree f t) = is_red t"
  by (induction t rule: is_red.induct) simp_all

lemma map_paint [simp]: "map_rb_tree f (paint c t) = paint c (map_rb_tree f t)"
  by (cases t) simp_all

lemma map_left_child [simp]: "left_child (map_rb_tree f t) = map_rb_tree f (left_child t)"
  by (cases t) simp_all

lemma map_right_child [simp]: "right_child (map_rb_tree f t) = map_rb_tree f (right_child t)"
  by (cases t) simp_all

lemma map_left_rotate [simp]:
  "map_rb_tree f (tree_left_rotate t) = tree_left_rotate (map_rb_tree f t)"
  by (induction t rule: tree_left_rotate.induct) simp_all

lemma map_right_rotate [simp]:
  "map_rb_tree f (tree_right_rotate t) = tree_right_rotate (map_rb_tree f t)"
  by (induction t rule: tree_right_rotate.induct) simp_all

lemma map_balance_left:
  "map_rb_tree f (balance_after_insert_left c l k r) =
     balance_after_insert_left c (map_rb_tree f l) (f k) (map_rb_tree f r)"
  by (simp add: balance_after_insert_left_def Let_def)

lemma map_balance_right:
  "map_rb_tree f (balance_after_insert_right c l k r) =
     balance_after_insert_right c (map_rb_tree f l) (f k) (map_rb_tree f r)"
  by (simp add: balance_after_insert_right_def Let_def)

lemma map_insert_unique:
  "map_option (map_rb_tree f) (insert_unique (\<lambda>x y. value_comp (f x) (f y)) v t) =
     insert_unique value_comp (f v) (map_rb_tree f t)"
proof (induction t)
  case Leaf
  show ?case by simp
next
  case (Node c l k r)
  let ?c = "\<lambda>x y. value_comp (f x) (f y)"
  have l: "map_option (map_rb_tree f)
      (map_option (\<lambda>l'. balance_after_insert_left c l' k r) (insert_unique ?c v l)) =
     map_option (\<lambda>l'. balance_after_insert_left c l' (f k) (map_rb_tree f r))
      (insert_unique value_comp (f v) (map_rb_tree f l))"
    unfolding Node.IH(1) [symmetric]
    by (cases "insert_unique ?c v l") (simp_all add: map_balance_left)
  have r: "map_option (map_rb_tree f)
      (map_option (\<lambda>r'. balance_after_insert_right c l k r') (insert_unique ?c v r)) =
     map_option (\<lambda>r'. balance_after_insert_right c (map_rb_tree f l) (f k) r')
      (insert_unique value_comp (f v) (map_rb_tree f r))"
    unfolding Node.IH(2) [symmetric]
    by (cases "insert_unique ?c v r") (simp_all add: map_balance_right)
  show ?case using l r by simp
qed

lemma map_set_insert:
  "map_rb_tree f (set_insert (\<lambda>x y. value_comp (f x) (f y)) v t) =
     set_insert value_comp (f v) (map_rb_tree f t)"
proof (cases "insert_unique (\<lambda>x y. value_comp (f x) (f y)) v t")
  case None
  with map_insert_unique [of f value_comp v t]
  have "insert_unique value_comp (f v) (map_rb_tree f t) = None" by simp
  with None show ?thesis by (simp add: set_insert_def)
next
  case (Some t')
  with map_insert_unique [of f value_comp v t]
  have "insert_unique value_comp (f v) (map_rb_tree f t) = Some (map_rb_tree f t')" by simp
  with Some show ?thesis by (simp add: set_insert_def)
qed

lemma map_foldl_set_insert:
  "map_rb_tree f (foldl (\<lambda>s i. set_insert (\<lambda>x y. value_comp (f x) (f y)) i s) t xs) =
     foldl (\<lambda>s a. set_insert value_comp a s) (map_rb_tree f t) (map f xs)"
  by (induction xs arbitrary: t) (simp_all add: map_set_insert)

lemma set_iterate_map: "set_iterate (map_rb_tree f t) = map f (set_iterate t)"
  by (induction t) simp_all

lemma insert_unique_cong:
  "\<forall>k \<in> set (set_iterate t). c1 v k = c2 v k \<and> c1 k v = c2 k v \<Longrightarrow>
     insert_unique c1 v t = insert_unique c2 v t"
  by (induction t) auto

lemma set_insert_subset:
  "set (set_iterate (set_insert value_comp v t)) \<subseteq> insert v (set (set_iterate t))"
  using set_insert_iterate [of value_comp v t] by auto

lemma foldl_set_insert_cong:
  "\<forall>x \<in> S. \<forall>y \<in> S. c1 x y = c2 x y \<Longrightarrow> set (set_iterate t) \<subseteq> S \<Longrightarrow> set xs \<subseteq> S \<Longrightarrow>
     foldl (\<lambda>s a. set_insert c1 a s) t xs = foldl (\<lambda>s a. set_insert c2 a s) t xs"
proof (induction xs arbitrary: t)
  case Nil
  show ?case by simp
next
  case (Cons x xs)
  from Cons.prems have "\<forall>k \<in> set (set_iterate t). c1 x k = c2 x k \<and> c1 k x = c2 k x"
    by auto
  then have e: "set_insert c1 x t = set_insert c2 x t"
    by (simp add: set_insert_def insert_unique_cong [of t c1 x c2])
  from set_insert_subset [of c2 x t] Cons.prems
  have "set (set_iterate (set_insert c2 x t)) \<subseteq> S" by auto
  from Cons.IH [OF Cons.prems(1) this] Cons.prems(3) show ?case by (simp add: e)
qed

text \<open>
  The set of references as the image of a set of positions in the traversal: the
  positions depend on the paths only.
\<close>

lemma file_refs_by_position:
  "set_iterate (foldl (\<lambda>s a. set_insert (PathComparator heap) a s) Leaf xs) =
     map ((!) xs) (set_iterate
       (foldl (\<lambda>s i. set_insert (PathComparator ((!) (map heap xs))) i s) Leaf
          [0..<length xs]))"
proof -
  have c: "(\<lambda>x y. PathComparator heap (xs ! x) (xs ! y)) = PathComparator (\<lambda>i. heap (xs ! i))"
    by (intro ext) (simp add: PathComparator_def)
  have "foldl (\<lambda>s i. set_insert (PathComparator ((!) (map heap xs))) i s) Leaf [0..<length xs] =
      foldl (\<lambda>s i. set_insert (PathComparator (\<lambda>i. heap (xs ! i))) i s) Leaf [0..<length xs]"
    by (rule foldl_set_insert_cong [where S = "{..<length xs}"])
       (auto simp: PathComparator_def)
  moreover have "map_rb_tree ((!) xs)
      (foldl (\<lambda>s i. set_insert (PathComparator (\<lambda>i. heap (xs ! i))) i s) Leaf [0..<length xs]) =
      foldl (\<lambda>s a. set_insert (PathComparator heap) a s) Leaf xs"
    using map_foldl_set_insert [of "(!) xs" "PathComparator heap" Leaf "[0..<length xs]"]
    by (simp add: c map_nth)
  ultimately show ?thesis by (simp add: set_iterate_map [symmetric])
qed

lemma file_refs_order_positions:
  "file_refs_order heap table =
     map ((!) (table_file_refs table)) (processed_positions (map heap (table_file_refs table)))"
  unfolding file_refs_order_def collect_file_refs_flat processed_positions_def length_map
  by (rule file_refs_by_position)

lemma processed_positions_range:
  "distinct (processed_positions ps)" "set (processed_positions ps) \<subseteq> {..<length ps}"
proof -
  have "distinct (set_iterate Leaf @ rev [0..<length ps])" by simp
  from foldl_set_insert_path [OF this, of "(!) ps"]
  have d: "distinct (processed_positions ps)"
    and s: "set (processed_positions ps) \<subseteq> set [0..<length ps]"
    by (simp_all add: processed_positions_def)
  from d show "distinct (processed_positions ps)" .
  from s show "set (processed_positions ps) \<subseteq> {..<length ps}" by auto
qed

lemma HandleShortenFilePaths_by_position:
  assumes d: "distinct (table_file_refs table)"
    and r: "HandleShortenFilePaths hash extract table heap m = (ok, heap', m')"
    and ps: "ps = map heap (table_file_refs table)"
    and idx: "idx = processed_positions ps"
    and qs: "qs = shorten_paths hash extract (OptimalShortenedLength (size_to_int (length idx))) []
        (map ((!) ps) idx)"
  shows "ok"
    and "m' = map_of (filter (\<lambda>(p, q). \<not> under_color extract p) (zip (map ((!) ps) idx) qs))
          ++ m"
    and "map heap' (table_file_refs table) =
       map (\<lambda>j. case map_of (zip idx qs) j of Some q \<Rightarrow> q | None \<Rightarrow> ps ! j) [0..<length ps]"
proof -
  define xs where "xs = table_file_refs table"
  have n: "length ps = length xs" by (simp add: ps xs_def)
  have ord: "file_refs_order heap table = map ((!) xs) idx"
    by (simp add: file_refs_order_positions xs_def idx ps)
  have ir: "distinct idx" "set idx \<subseteq> {..<length xs}"
    using processed_positions_range [of ps] by (simp_all add: idx n)
  have hp: "map heap (map ((!) xs) idx) = map ((!) ps) idx"
    using ir(2) by (auto simp: ps xs_def)
  note p = HandleShortenFilePaths_paths [OF d r, unfolded ord hp length_map, folded qs]
  show "ok" by (rule p(1))
  show "m' = map_of (filter (\<lambda>(p, q). \<not> under_color extract p) (zip (map ((!) ps) idx) qs))
          ++ m" by (rule p(4))
  have lq: "length qs = length idx" by (simp add: qs)
  have "heap' (xs ! j) = (case map_of (zip idx qs) j of Some q \<Rightarrow> q | None \<Rightarrow> ps ! j)"
    if j: "j < length xs" for j
  proof (cases "map_of (zip idx qs) j")
    case None
    with lq have "j \<notin> set idx" by (simp add: map_of_zip_is_None)
    have "xs ! j \<notin> set (map ((!) xs) idx)"
    proof
      assume "xs ! j \<in> set (map ((!) xs) idx)"
      then obtain i where i: "i \<in> set idx" "xs ! i = xs ! j" by auto
      with ir(2) have "i < length xs" by auto
      with i(2) j d have "i = j" by (simp add: nth_eq_iff_index_eq xs_def)
      with i(1) \<open>j \<notin> set idx\<close> show False by simp
    qed
    with p(3) have "heap' (xs ! j) = heap (xs ! j)" by blast
    with None j show ?thesis by (simp add: ps xs_def)
  next
    case (Some q)
    then have "(j, q) \<in> set (zip idx qs)" by (rule map_of_SomeD)
    then obtain k where k: "k < length idx" "idx ! k = j" "qs ! k = q"
      using lq by (auto simp: in_set_zip)
    from k(1) have "map heap' (map ((!) xs) idx) ! k = heap' (xs ! (idx ! k))" by simp
    with p(2) have "heap' (xs ! (idx ! k)) = qs ! k" by simp
    with k Some show ?thesis by simp
  qed
  note at = this
  have "map heap' xs =
       map (\<lambda>j. case map_of (zip idx qs) j of Some q \<Rightarrow> q | None \<Rightarrow> ps ! j) [0..<length xs]"
  proof (rule nth_equalityI)
    show "length (map heap' xs) =
        length (map (\<lambda>j. case map_of (zip idx qs) j of Some q \<Rightarrow> q | None \<Rightarrow> ps ! j)
          [0..<length xs])" by simp
    fix i
    assume "i < length (map heap' xs)"
    then show "map heap' xs ! i =
        map (\<lambda>j. case map_of (zip idx qs) j of Some q \<Rightarrow> q | None \<Rightarrow> ps ! j)
          [0..<length xs] ! i"
      using at [of i] by (simp split: option.splits)
  qed
  then show "map heap' (table_file_refs table) =
       map (\<lambda>j. case map_of (zip idx qs) j of Some q \<Rightarrow> q | None \<Rightarrow> ps ! j) [0..<length ps]"
    unfolding xs_def [symmetric] n .
qed

lemma HandleShortenFilePaths_addresses:
  assumes "distinct (table_file_refs t1)" "distinct (table_file_refs t2)"
    and "map heap1 (table_file_refs t1) = map heap2 (table_file_refs t2)"
  shows "fst (HandleShortenFilePaths hash extract t1 heap1 m) =
      fst (HandleShortenFilePaths hash extract t2 heap2 m)"
    and "snd (snd (HandleShortenFilePaths hash extract t1 heap1 m)) =
      snd (snd (HandleShortenFilePaths hash extract t2 heap2 m))"
    and "map (fst (snd (HandleShortenFilePaths hash extract t1 heap1 m))) (table_file_refs t1) =
      map (fst (snd (HandleShortenFilePaths hash extract t2 heap2 m))) (table_file_refs t2)"
proof -
  obtain ok1 h1 m1 where r1: "HandleShortenFilePaths hash extract t1 heap1 m = (ok1, h1, m1)"
    by (cases "HandleShortenFilePaths hash extract t1 heap1 m")
  obtain ok2 h2 m2 where r2: "HandleShortenFilePaths hash extract t2 heap2 m = (ok2, h2, m2)"
    by (cases "HandleShortenFilePaths hash extract t2 heap2 m")
  note a = HandleShortenFilePaths_by_position [OF assms(1) r1 refl refl refl]
  note b = HandleShortenFilePaths_by_position [OF assms(2) r2 refl refl refl,
      folded assms(3)]
  from a(1) b(1) show "fst (HandleShortenFilePaths hash extract t1 heap1 m) =
      fst (HandleShortenFilePaths hash extract t2 heap2 m)"
    unfolding r1 r2 fst_conv by simp
  show "snd (snd (HandleShortenFilePaths hash extract t1 heap1 m)) =
      snd (snd (HandleShortenFilePaths hash extract t2 heap2 m))"
    unfolding r1 r2 fst_conv snd_conv by (simp only: a(2) b(2))
  show
    "map (fst (snd (HandleShortenFilePaths hash extract t1 heap1 m))) (table_file_refs t1) =
      map (fst (snd (HandleShortenFilePaths hash extract t2 heap2 m))) (table_file_refs t2)"
    unfolding r1 r2 fst_conv snd_conv by (simp only: a(3) b(3))
qed

lemma table_file_refs_map:
  "table_file_refs (map_ResourceTable f g table) = map f (table_file_refs table)"
proof -
  have v: "value_file_refs (map_ResourceConfigValue f cv) = map f (value_file_refs cv)" for cv
    by (cases cv; cases "value' cv") (simp_all add: value_file_refs_def)
  show ?thesis
    by (simp add: table_file_refs_def ResourceTable.map_sel ResourceTablePackage.map_sel
        ResourceTableType.map_sel ResourceEntry.map_sel map_concat comp_def v)
qed

lemma collapse_entry_map:
  "collapse_entry collapse ex ty (map_ResourceEntry f e) m = collapse_entry collapse ex ty e m"
  by (cases e) (simp add: collapse_entry_def split: option.splits)

lemma HandleCollapseKeyStringPool_map:
  "HandleCollapseKeyStringPool (map_ResourceTable f (\<lambda>ty. ty) table) collapse ex m =
     HandleCollapseKeyStringPool table collapse ex m"
  by (simp add: HandleCollapseKeyStringPool_def ResourceTable.map_sel
      ResourceTablePackage.map_sel ResourceTableType.map_sel foldl_map collapse_entry_map)

text \<open>
  C1. Two runs of \<^verbatim>\<open>Consume\<close>, with the same \<^verbatim>\<open>std::hash\<close> and the same configuration, on
  tables that are the same once every file reference is replaced by its path, the
  references being separate objects at whatever addresses: both return the same result,
  leave the same object behind, with the same \<^verbatim>\<open>id_resource_map\<close> and the same
  \<^verbatim>\<open>shortened_path_map\<close>, and leave the same paths in the file references, read in the
  order of the table.
\<close>

theorem Consume_same_input_same_output:
  assumes "map_ResourceTable heap1 (\<lambda>ty. ty) t1 = map_ResourceTable heap2 (\<lambda>ty. ty) t2"
    and "distinct (table_file_refs t1)" and "distinct (table_file_refs t2)"
  shows "fst (Consume hash extract this t1 heap1) = fst (Consume hash extract this t2 heap2)
     \<and> fst (snd (Consume hash extract this t1 heap1)) =
        fst (snd (Consume hash extract this t2 heap2))
     \<and> map (snd (snd (Consume hash extract this t1 heap1))) (table_file_refs t1) =
        map (snd (snd (Consume hash extract this t2 heap2))) (table_file_refs t2)"
proof -
  from assms(1) have "table_file_refs (map_ResourceTable heap1 (\<lambda>ty. ty) t1) =
      table_file_refs (map_ResourceTable heap2 (\<lambda>ty. ty) t2)" by simp
  then have p: "map heap1 (table_file_refs t1) = map heap2 (table_file_refs t2)"
    by (simp add: table_file_refs_map)
  have c: "HandleCollapseKeyStringPool t1 collapse ex m =
      HandleCollapseKeyStringPool t2 collapse ex m" for collapse ex m
    using HandleCollapseKeyStringPool_map [of heap1 t1 collapse ex m]
      HandleCollapseKeyStringPool_map [of heap2 t2 collapse ex m] assms(1)
    by simp
  obtain ok m where k: "HandleCollapseKeyStringPool t2 (collapse_key_stringpool (options this))
      (name_collapse_exemptions (options this)) (id_resource_map (options this)) = (ok, m)"
    by (cases "HandleCollapseKeyStringPool t2 (collapse_key_stringpool (options this))
      (name_collapse_exemptions (options this)) (id_resource_map (options this))")
  note s = HandleShortenFilePaths_addresses [OF assms(2,3) p, of hash "extract"
      "shortened_path_map (options this)"]
  obtain ok1 h1 m1 where r1: "HandleShortenFilePaths hash extract t1 heap1
      (shortened_path_map (options this)) = (ok1, h1, m1)"
    by (cases "HandleShortenFilePaths hash extract t1 heap1 (shortened_path_map (options this))")
  obtain ok2 h2 m2 where r2: "HandleShortenFilePaths hash extract t2 heap2
      (shortened_path_map (options this)) = (ok2, h2, m2)"
    by (cases "HandleShortenFilePaths hash extract t2 heap2 (shortened_path_map (options this))")
  from s have e: "ok1 = ok2" "m1 = m2"
    "map h1 (table_file_refs t1) = map h2 (table_file_refs t2)"
    by (simp_all add: r1 r2)
  show ?thesis
    by (cases "shorten_resource_paths this")
       (simp_all add: Consume_def c k r1 r2 e p Let_def)
qed

lemma example_consume:
  "Consume hash_Ab ExtractResFilePathParts example_obfuscator example_table example_heap =
     (True,
      \<lparr>options = \<lparr>collapse_key_stringpool = True,
                  name_collapse_exemptions = example_exemptions,
                  id_resource_map =
                    [0x7f040000 \<mapsto> ''tint'', 0x7f030000 \<mapsto> ''main'', 0x7f020001 \<mapsto> ''foo'',
                     0x7f020000 \<mapsto> ''bar'', 0x7f010002 \<mapsto> ''secret''],
                  shortened_path_map =
                    [''res/layout/main.xml'' \<mapsto> ''res/Ab.xml'',
                     ''res/drawable/foo.png'' \<mapsto> ''res/Ab.png'',
                     ''res/drawable/bar.png'' \<mapsto> ''res/Ab1.png'']\<rparr>,
       shorten_resource_paths = True,
       collapse_key_stringpool' = True\<rparr>,
      example_heap(2 := ''res/Ab.xml'', 1 := ''res/Ab.png'', 0 := ''res/Ab1.png''))"
proof -
  have c: "HandleCollapseKeyStringPool example_table True example_exemptions Map.empty =
      (True, [0x7f040000 \<mapsto> ''tint'', 0x7f030000 \<mapsto> ''main'', 0x7f020001 \<mapsto> ''foo'',
              0x7f020000 \<mapsto> ''bar'', 0x7f010002 \<mapsto> ''secret''])"
    by (simp add: HandleCollapseKeyStringPool_map_of example_obfuscated_names)
  show ?thesis
    unfolding Consume_def example_obfuscator_def
    by (simp add: c example_run)
qed

lemma example_moved_same:
  "map_ResourceTable example_heap (\<lambda>ty. ty) example_table =
   map_ResourceTable example_heap_moved (\<lambda>ty. ty) example_table_moved"
  by (simp add: example_table_def example_table_moved_def example_heap_def
      example_heap_moved_def)

lemma example_moved_refs: "table_file_refs example_table_moved = [30, 20, 10, 40]"
  by (simp add: table_file_refs_def example_table_moved_def value_file_refs_def)

theorem Consume_same_input_same_output_witness:
  "map example_heap (table_file_refs example_table) =
     map example_heap_moved (table_file_refs example_table_moved)
   \<and> table_file_refs example_table = [0, 1, 2, 3]
   \<and> table_file_refs example_table_moved = [30, 20, 10, 40]
   \<and> fst (Consume hash_Ab ExtractResFilePathParts example_obfuscator example_table_moved
         example_heap_moved)
   \<and> map (snd (snd (Consume hash_Ab ExtractResFilePathParts example_obfuscator
         example_table_moved example_heap_moved))) [30, 20, 10, 40] =
       [''res/Ab1.png'', ''res/Ab.png'', ''res/Ab.xml'', ''res/color/tint.xml'']
   \<and> shortened_path_map (options (fst (snd (Consume hash_Ab ExtractResFilePathParts
         example_obfuscator example_table_moved example_heap_moved))))
         ''res/drawable/bar.png'' = Some ''res/Ab1.png''
   \<and> id_resource_map (options (fst (snd (Consume hash_Ab ExtractResFilePathParts
         example_obfuscator example_table_moved example_heap_moved))))
         0x7f010002 = Some ''secret''"
proof -
  have d: "distinct (table_file_refs example_table_moved)" by (simp add: example_moved_refs)
  note t = Consume_same_input_same_output [OF example_moved_same example_distinct d,
      of hash_Ab ExtractResFilePathParts example_obfuscator,
      unfolded example_consume fst_conv snd_conv example_file_refs example_moved_refs]
  from t have 1: "fst (Consume hash_Ab ExtractResFilePathParts example_obfuscator
      example_table_moved example_heap_moved)" by simp
  from t have 2: "map (snd (snd (Consume hash_Ab ExtractResFilePathParts example_obfuscator
         example_table_moved example_heap_moved))) [30, 20, 10, 40] =
       map (example_heap(2 := ''res/Ab.xml'', 1 := ''res/Ab.png'', 0 := ''res/Ab1.png''))
         [0, 1, 2, 3]"
    by (elim conjE) (rule sym)
  have 3: "map (example_heap(2 := ''res/Ab.xml'', 1 := ''res/Ab.png'', 0 := ''res/Ab1.png''))
         [0, 1, 2, 3] = [''res/Ab1.png'', ''res/Ab.png'', ''res/Ab.xml'', ''res/color/tint.xml'']"
    by (simp add: example_heap_def)
  from t have 4: "fst (snd (Consume hash_Ab ExtractResFilePathParts example_obfuscator
         example_table_moved example_heap_moved)) =
     \<lparr>options = \<lparr>collapse_key_stringpool = True,
                  name_collapse_exemptions = example_exemptions,
                  id_resource_map =
                    [0x7f040000 \<mapsto> ''tint'', 0x7f030000 \<mapsto> ''main'', 0x7f020001 \<mapsto> ''foo'',
                     0x7f020000 \<mapsto> ''bar'', 0x7f010002 \<mapsto> ''secret''],
                  shortened_path_map =
                    [''res/layout/main.xml'' \<mapsto> ''res/Ab.xml'',
                     ''res/drawable/foo.png'' \<mapsto> ''res/Ab.png'',
                     ''res/drawable/bar.png'' \<mapsto> ''res/Ab1.png'']\<rparr>,
       shorten_resource_paths = True,
       collapse_key_stringpool' = True\<rparr>"
    by (elim conjE) (rule sym)
  have 5: "map example_heap (table_file_refs example_table) =
     map example_heap_moved (table_file_refs example_table_moved)"
    by (simp add: example_file_refs example_moved_refs example_heap_def example_heap_moved_def)
  from 1 2 3 5 show ?thesis
    unfolding 4 by (simp add: example_file_refs example_moved_refs)
qed

end
